theory Spec2Isabelle
  imports Complex_Main "HOL-Library.Log_Nat" "HOL-Library.AList"
begin

section \<open>Python numbers\<close>

text \<open>
  The source computes the resize ratio with Python floats: \<^verbatim>\<open>quarter_size[0] / img.width\<close>
  (true division of two ints, correctly rounded), \<^verbatim>\<open>min\<close>, \<^verbatim>\<open>img.width * resize_ratio\<close>
  (the int converted, the product rounded) and \<^verbatim>\<open>int(...)\<close> (truncation toward zero).
  A float is modelled by the rational number it denotes, and every float operation by the
  exact operation followed by \<open>py_float\<close>, rounding to the nearest number with a 53-bit
  significand, ties to the even significand, as IEEE 754 binary64 does. The exponent
  range of binary64 is not modelled (no overflow, no subnormal numbers): the dimensions
  of an image are machine integers in Pillow, and the quotients and products of such
  numbers lie far inside that range.
\<close>

datatype error =
    ZeroDivisionError
  | ValueError
  | IndexError
  | OSError
  | FileNotFoundError
  | IsADirectoryError
  | UnidentifiedImageError
  | DecompressionBombError

definition round_half_even :: "rat \<Rightarrow> int" where
  "round_half_even y =
     (let f = \<lfloor>y\<rfloor>; d = y - of_int f
      in if d < 1 / 2 then f
         else if 1 / 2 < d then f + 1
         else if even f then f else f + 1)"

definition ilog2 :: "rat \<Rightarrow> int" where
  \<comment> \<open>for \<open>0 < x\<close>: the exponent \<open>e\<close> with \<open>2 powi e \<le> x < 2 powi (e + 1)\<close>\<close>
  "ilog2 x =
     (let (p, q) = quotient_of x; d = bitlen p - bitlen q
      in if 2 powi d \<le> x then d else d - 1)"

definition round53 :: "rat \<Rightarrow> rat" where
  \<comment> \<open>for \<open>0 < x\<close>: the nearest multiple of \<open>2 powi (ilog2 x - 52)\<close>\<close>
  "round53 x =
     (let s = 2 powi (ilog2 x - 52)
      in of_int (round_half_even (x / s)) * s)"

definition py_float :: "rat \<Rightarrow> rat" where
  "py_float x =
     (if x = 0 then 0 else if 0 < x then round53 x else - round53 (- x))"

definition truediv :: "int \<Rightarrow> int \<Rightarrow> error + rat" where
  \<comment> \<open>\<^verbatim>\<open>a / b\<close> on two ints\<close>
  "truediv a b =
     (if b = 0 then Inl ZeroDivisionError
      else Inr (py_float (of_int a / of_int b)))"

definition int_times_float :: "int \<Rightarrow> rat \<Rightarrow> rat" where
  \<comment> \<open>\<^verbatim>\<open>n * r\<close> with \<open>n\<close> an int and \<open>r\<close> a float\<close>
  "int_times_float n r = py_float (py_float (of_int n) * r)"

definition py_int :: "rat \<Rightarrow> int" where
  \<comment> \<open>\<^verbatim>\<open>int(x)\<close>: truncation toward zero\<close>
  "py_int x = (if 0 \<le> x then \<lfloor>x\<rfloor> else \<lceil>x\<rceil>)"

section \<open>Images\<close>

text \<open>
  An image is modelled by its size and by the boxes at which other images were pasted
  into it, in the order of the \<^verbatim>\<open>paste\<close> calls; pixel data and pixel modes are not
  modelled. A box is
  \<open>(left, upper, right, lower)\<close> as in Pillow: pasting an image of size \<open>(w, h)\<close> at
  \<open>(x, y)\<close> gives the box \<open>(x, y, x + w, y + h)\<close>, and Pillow clips what falls outside the
  target.
\<close>

type_synonym color = string
type_synonym box = "int \<times> int \<times> int \<times> int"

record image =
  width :: int
  height :: int
  pasted :: "box list"

definition image_new :: "int \<times> int \<Rightarrow> color \<Rightarrow> error + image" where
  \<comment> \<open>\<^verbatim>\<open>Image.new('RGB', size, color)\<close>; Pillow refuses a negative size\<close>
  "image_new sz color =
     (if fst sz < 0 \<or> snd sz < 0 then Inl ValueError
      else Inr \<lparr>width = fst sz, height = snd sz, pasted = []\<rparr>)"

definition rotate90_expand :: "image \<Rightarrow> image" where
  \<comment> \<open>\<^verbatim>\<open>img.rotate(90, expand=True)\<close>: the canvas takes the rotated size\<close>
  "rotate90_expand img = \<lparr>width = height img, height = width img, pasted = []\<rparr>"

definition resize :: "image \<Rightarrow> int \<times> int \<Rightarrow> error + image" where
  \<comment> \<open>\<^verbatim>\<open>img.resize(size, Image.LANCZOS)\<close>; Pillow raises
      ``height and width must be > 0'' otherwise\<close>
  "resize img sz =
     (if (width img, height img) = sz then Inr img
      else if fst sz < 1 \<or> snd sz < 1 then Inl ValueError
      else Inr \<lparr>width = fst sz, height = snd sz, pasted = []\<rparr>)"

definition paste :: "image \<Rightarrow> image \<Rightarrow> int \<times> int \<Rightarrow> image" where
  \<comment> \<open>\<^verbatim>\<open>target.paste(im, (x, y))\<close>\<close>
  "paste target im pos =
     target\<lparr>pasted := pasted target @
       [(fst pos, snd pos, fst pos + width im, snd pos + height im)]\<rparr>"

definition expand :: "image \<Rightarrow> int \<times> int \<times> int \<times> int \<Rightarrow> color \<Rightarrow> error + image" where
  \<comment> \<open>\<^verbatim>\<open>ImageOps.expand(image, border=(left, top, right, bottom), fill=color)\<close>:
      a new image of the enlarged size, the old one pasted at \<open>(left, top)\<close>\<close>
  "expand img border color =
     (case border of (l, t, r, b) \<Rightarrow>
        (case image_new (l + width img + r, t + height img + b) color of
           Inl e \<Rightarrow> Inl e
         | Inr out \<Rightarrow> Inr (paste out img (l, t))))"

section \<open>The filesystem\<close>

text \<open>
  A folder is named by its path string and holds a listing: the entries \<open>(name, node)\<close>
  in the order in which the operating system enumerates them. A file path is the pair
  \<open>(folder, name)\<close> that \<^verbatim>\<open>os.path.join(folder, name)\<close> denotes. A file written under a
  new name is listed last; one written under an existing name keeps its place.
  Saving to a \<^verbatim>\<open>.jpg\<close> path encodes as JPEG, which Pillow refuses for an empty image and
  libjpeg for a dimension above 65500; the decoded size of a saved image is the size it
  was saved with.
\<close>

datatype node = ImageFile image | DataFile | SubDir

type_synonym path = "string \<times> string"
type_synonym filesystem = "string \<rightharpoonup> (string \<times> node) list"

definition os_path_join :: "string \<Rightarrow> string \<Rightarrow> path" where
  "os_path_join folder name = (folder, name)"

definition hidden :: "string \<Rightarrow> bool" where
  "hidden name = (case name of [] \<Rightarrow> False | c # _ \<Rightarrow> c = CHR ''.'')"

definition glob_star :: "filesystem \<Rightarrow> string \<Rightarrow> path list" where
  \<comment> \<open>\<^verbatim>\<open>glob.glob(os.path.join(folder, '*'))\<close>: the pattern \<^verbatim>\<open>*\<close> matches every name
      that does not begin with a dot; a missing folder matches nothing\<close>
  "glob_star fs folder =
     (case fs folder of
        None \<Rightarrow> []
      | Some entries \<Rightarrow>
          map (os_path_join folder) (filter (\<lambda>name. \<not> hidden name) (map fst entries)))"

definition makedirs :: "filesystem \<Rightarrow> string \<Rightarrow> (error + unit) \<times> filesystem" where
  \<comment> \<open>\<^verbatim>\<open>os.makedirs(folder, exist_ok=True)\<close>\<close>
  "makedirs fs folder =
     (case fs folder of
        None \<Rightarrow> (Inr (), fs(folder \<mapsto> []))
      | Some entries \<Rightarrow> (Inr (), fs))"

definition image_open :: "filesystem \<Rightarrow> path \<Rightarrow> (error + image) \<times> filesystem" where
  \<comment> \<open>\<^verbatim>\<open>Image.open(path)\<close> and the decoding that the first use of the image triggers.
      Pillow identifies no file whose size is not positive in both dimensions, and
      refuses one of more than twice \<^verbatim>\<open>Image.MAX_IMAGE_PIXELS\<close> = 89478485 pixels.\<close>
  "image_open fs p =
     (case fs (fst p) of
        None \<Rightarrow> (Inl FileNotFoundError, fs)
      | Some entries \<Rightarrow>
          (case map_of entries (snd p) of
             None \<Rightarrow> (Inl FileNotFoundError, fs)
           | Some SubDir \<Rightarrow> (Inl IsADirectoryError, fs)
           | Some DataFile \<Rightarrow> (Inl UnidentifiedImageError, fs)
           | Some (ImageFile img) \<Rightarrow>
               if width img < 1 \<or> height img < 1 then (Inl UnidentifiedImageError, fs)
               else if 2 * 89478485 < width img * height img
               then (Inl DecompressionBombError, fs)
               else (Inr img, fs)))"

definition image_save :: "filesystem \<Rightarrow> image \<Rightarrow> path \<Rightarrow> (error + unit) \<times> filesystem" where
  \<comment> \<open>\<^verbatim>\<open>img.save(path)\<close> with a \<^verbatim>\<open>.jpg\<close> path\<close>
  "image_save fs img p =
     (case fs (fst p) of
        None \<Rightarrow> (Inl FileNotFoundError, fs)
      | Some entries \<Rightarrow>
          if map_of entries (snd p) = Some SubDir then (Inl IsADirectoryError, fs)
          else if width img < 1 \<or> height img < 1 then (Inl ValueError, fs)
          else if 65500 < width img \<or> 65500 < height img then (Inl OSError, fs)
          else (Inr (), fs(fst p \<mapsto> AList.update (snd p) (ImageFile img) entries)))"

definition os_remove :: "filesystem \<Rightarrow> path \<Rightarrow> (error + unit) \<times> filesystem" where
  \<comment> \<open>\<^verbatim>\<open>os.remove(path)\<close>\<close>
  "os_remove fs p =
     (case fs (fst p) of
        None \<Rightarrow> (Inl FileNotFoundError, fs)
      | Some entries \<Rightarrow>
          (case map_of entries (snd p) of
             None \<Rightarrow> (Inl FileNotFoundError, fs)
           | Some SubDir \<Rightarrow> (Inl IsADirectoryError, fs)
           | Some f \<Rightarrow> (Inr (), fs(fst p \<mapsto> AList.delete (snd p) entries))))"

section \<open>The Compositor: \<^verbatim>\<open>resize_and_merge\<close>\<close>

definition quarter_size_single_border :: "int \<times> int \<Rightarrow> int \<Rightarrow> int \<times> int" where
  "quarter_size_single_border final_size border_size =
     ((fst final_size - border_size) div 2, snd final_size div 2)"

definition quarter_size_double_border :: "int \<times> int \<Rightarrow> int \<Rightarrow> int \<times> int" where
  "quarter_size_double_border final_size border_size =
     ((fst final_size - 2 * border_size) div 2, (snd final_size - border_size) div 2)"

definition rotate_if_landscape :: "image \<Rightarrow> image" where
  "rotate_if_landscape img = (if width img > height img then rotate90_expand img else img)"

definition quarter_size_for :: "int \<times> int \<Rightarrow> int \<Rightarrow> nat \<Rightarrow> int \<times> int" where
  \<comment> \<open>\<^verbatim>\<open>quarter_size_double_border if idx % 2 else quarter_size_single_border\<close>\<close>
  "quarter_size_for final_size border_size idx =
     (if idx mod 2 \<noteq> 0 then quarter_size_double_border final_size border_size
      else quarter_size_single_border final_size border_size)"

definition new_size :: "int \<times> int \<Rightarrow> image \<Rightarrow> error + int \<times> int" where
  \<comment> \<open>the size to which \<open>img\<close> is resized for the cell \<open>quarter_size\<close>\<close>
  "new_size quarter_size img =
     (case truediv (fst quarter_size) (width img) of
        Inl e \<Rightarrow> Inl e
      | Inr width_ratio \<Rightarrow>
          (case truediv (snd quarter_size) (height img) of
             Inl e \<Rightarrow> Inl e
           | Inr height_ratio \<Rightarrow>
               (let resize_ratio = min width_ratio height_ratio
                in Inr (py_int (int_times_float (width img) resize_ratio),
                        py_int (int_times_float (height img) resize_ratio)))))"

definition border_for :: "int \<Rightarrow> nat \<Rightarrow> int \<times> int \<times> int \<times> int" where
  \<comment> \<open>the \<^verbatim>\<open>border=\<close> argument of \<^verbatim>\<open>ImageOps.expand\<close> in the two branches on \<^verbatim>\<open>idx % 2\<close>\<close>
  "border_for border_size idx =
     (if idx mod 2 \<noteq> 0 then (0, 0, border_size, border_size)
      else (0, 0, border_size, 0))"

definition process_image ::
  "filesystem \<Rightarrow> int \<times> int \<Rightarrow> int \<Rightarrow> color \<Rightarrow> nat \<Rightarrow> path \<Rightarrow> (error + image) \<times> filesystem"
where
  \<comment> \<open>the body of the loop over \<^verbatim>\<open>enumerate(image_paths)\<close>\<close>
  "process_image fs final_size border_size border_color idx image_path =
     (case image_open fs image_path of
        (Inl e, fs') \<Rightarrow> (Inl e, fs')
      | (Inr img0, fs') \<Rightarrow>
          (let img = rotate_if_landscape img0;
               quarter_size = quarter_size_for final_size border_size idx
           in case new_size quarter_size img of
                Inl e \<Rightarrow> (Inl e, fs')
              | Inr sz \<Rightarrow>
                  (case resize img sz of
                     Inl e \<Rightarrow> (Inl e, fs')
                   | Inr img_resized \<Rightarrow>
                       (expand img_resized (border_for border_size idx) border_color, fs'))))"

fun process_images ::
  "filesystem \<Rightarrow> int \<times> int \<Rightarrow> int \<Rightarrow> color \<Rightarrow> nat \<Rightarrow> image list \<Rightarrow> path list
     \<Rightarrow> (error + image list) \<times> filesystem"
where
  "process_images fs final_size border_size border_color idx images [] = (Inr images, fs)"
| "process_images fs final_size border_size border_color idx images (image_path # rest) =
     (case process_image fs final_size border_size border_color idx image_path of
        (Inl e, fs') \<Rightarrow> (Inl e, fs')
      | (Inr img_with_border, fs') \<Rightarrow>
          process_images fs' final_size border_size border_color (Suc idx)
            (images @ [img_with_border]) rest)"

definition paste_position :: "int \<times> int \<Rightarrow> int \<Rightarrow> nat \<Rightarrow> int \<times> int" where
  \<comment> \<open>where \<^verbatim>\<open>images[k]\<close> is pasted: top-left, top-right, bottom-left, bottom-right\<close>
  "paste_position final_size border_size k =
     (let qs = quarter_size_single_border final_size border_size;
          qd = quarter_size_double_border final_size border_size
      in if k = 0 then (0, 0)
         else if k = 1 then (fst qs + border_size, 0)
         else if k = 2 then (0, snd qs)
         else (fst qs + border_size, snd qd + border_size))"

definition paste_four :: "image \<Rightarrow> image list \<Rightarrow> int \<times> int \<Rightarrow> int \<Rightarrow> error + image" where
  \<comment> \<open>the four \<^verbatim>\<open>final_image.paste(images[k], ...)\<close> calls; \<^verbatim>\<open>images[k]\<close> raises
      IndexError on a list that is too short\<close>
  "paste_four final_image images final_size border_size =
     (if length images < 4 then Inl IndexError
      else Inr (paste (paste (paste (paste final_image
             (images ! 0) (paste_position final_size border_size 0))
             (images ! 1) (paste_position final_size border_size 1))
             (images ! 2) (paste_position final_size border_size 2))
             (images ! 3) (paste_position final_size border_size 3)))"

definition resize_and_merge ::
  "filesystem \<Rightarrow> path list \<Rightarrow> int \<times> int \<Rightarrow> int \<Rightarrow> color \<Rightarrow> (error + image) \<times> filesystem"
where
  "resize_and_merge fs image_paths final_size border_size border_color =
     (case process_images fs final_size border_size border_color 0 [] image_paths of
        (Inl e, fs') \<Rightarrow> (Inl e, fs')
      | (Inr images, fs') \<Rightarrow>
          (case image_new final_size border_color of
             Inl e \<Rightarrow> (Inl e, fs')
           | Inr final_image \<Rightarrow>
               (paste_four final_image images final_size border_size, fs')))"

section \<open>The Batcher: \<^verbatim>\<open>merge_images_in_folder\<close>\<close>

fun py_str :: "nat \<Rightarrow> string" where
  \<comment> \<open>\<^verbatim>\<open>str(n)\<close>, as the f-string \<^verbatim>\<open>f'merged_{i//4}.jpg'\<close> formats the group index\<close>
  "py_str n =
     (if n < 10 then [char_of (48 + n)]
      else py_str (n div 10) @ [char_of (48 + n mod 10)])"

definition white_image_path :: "string \<Rightarrow> path" where
  "white_image_path output_folder = os_path_join output_folder ''white_temp.jpg''"

definition merged_image_path :: "string \<Rightarrow> nat \<Rightarrow> path" where
  "merged_image_path output_folder i =
     os_path_join output_folder (''merged_'' @ py_str (i div 4) @ ''.jpg'')"

function pad_slice ::
  "filesystem \<Rightarrow> path list \<Rightarrow> string \<Rightarrow> int \<times> int \<Rightarrow> color \<Rightarrow> (error + path list) \<times> filesystem"
where
  "pad_slice fs paths_slice output_folder final_size border_color =
     (if length paths_slice < 4 then
        (case image_new final_size border_color of
           Inl e \<Rightarrow> (Inl e, fs)
         | Inr white_image \<Rightarrow>
             (case image_save fs white_image (white_image_path output_folder) of
                (Inl e, fs') \<Rightarrow> (Inl e, fs')
              | (Inr u, fs') \<Rightarrow>
                  pad_slice fs' (paths_slice @ [white_image_path output_folder])
                    output_folder final_size border_color))
      else (Inr paths_slice, fs))"
  by pat_completeness auto
termination
  by (relation "measure (\<lambda>(fs, paths_slice, rest). 4 - length paths_slice)") auto

function batch_loop ::
  "filesystem \<Rightarrow> path list \<Rightarrow> nat \<Rightarrow> string \<Rightarrow> int \<times> int \<Rightarrow> int \<Rightarrow> color
     \<Rightarrow> (error + unit) \<times> filesystem"
where
  "batch_loop fs image_paths i output_folder final_size border_size border_color =
     (if i < length image_paths then
        (case pad_slice fs (take 4 (drop i image_paths)) output_folder final_size border_color of
           (Inl e, fs1) \<Rightarrow> (Inl e, fs1)
         | (Inr paths_slice, fs1) \<Rightarrow>
             (case resize_and_merge fs1 paths_slice final_size border_size border_color of
                (Inl e, fs2) \<Rightarrow> (Inl e, fs2)
              | (Inr merged_image, fs2) \<Rightarrow>
                  (case image_save fs2 merged_image (merged_image_path output_folder i) of
                     (Inl e, fs3) \<Rightarrow> (Inl e, fs3)
                   | (Inr u, fs3) \<Rightarrow>
                       if length paths_slice < 4 then
                         (case os_remove fs3 (white_image_path output_folder) of
                            (Inl e, fs4) \<Rightarrow> (Inl e, fs4)
                          | (Inr u', fs4) \<Rightarrow>
                              batch_loop fs4 image_paths (i + 4) output_folder
                                final_size border_size border_color)
                       else
                         batch_loop fs3 image_paths (i + 4) output_folder
                           final_size border_size border_color)))
      else (Inr (), fs))"
  by pat_completeness auto
termination
  by (relation "measure (\<lambda>(fs, image_paths, i, rest). length image_paths - i)") auto

definition merge_images_in_folder ::
  "filesystem \<Rightarrow> string \<Rightarrow> string \<Rightarrow> int \<times> int \<Rightarrow> int \<Rightarrow> color \<Rightarrow> (error + unit) \<times> filesystem"
where
  "merge_images_in_folder fs input_folder output_folder final_size border_size border_color =
     (let image_paths = glob_star fs input_folder
      in case makedirs fs output_folder of
           (Inl e, fs') \<Rightarrow> (Inl e, fs')
         | (Inr u, fs') \<Rightarrow>
             batch_loop fs' image_paths 0 output_folder final_size border_size border_color)"

section \<open>Notions used by the properties\<close>

text \<open>
  The uniform scale factor as the specification words it: the smaller of
  cell width / image width and cell height / image height, as an exact rational.
\<close>

definition scale_factor :: "int \<times> int \<Rightarrow> image \<Rightarrow> rat" where
  "scale_factor quarter_size img =
     min (of_int (fst quarter_size) / of_int (width img))
         (of_int (snd quarter_size) / of_int (height img))"

text \<open>
  Boxes are half-open pixel ranges. Two boxes are disjoint when one ends before the other
  begins on some axis; a box is within another when it stays inside it on both axes.
\<close>

definition boxes_disjoint :: "box \<Rightarrow> box \<Rightarrow> bool" where
  "boxes_disjoint a b =
     (case a of (ax0, ay0, ax1, ay1) \<Rightarrow> case b of (bx0, by0, bx1, by1) \<Rightarrow>
        ax1 \<le> bx0 \<or> bx1 \<le> ax0 \<or> ay1 \<le> by0 \<or> by1 \<le> ay0)"

definition box_within :: "box \<Rightarrow> box \<Rightarrow> bool" where
  "box_within a b =
     (case a of (ax0, ay0, ax1, ay1) \<Rightarrow> case b of (bx0, by0, bx1, by1) \<Rightarrow>
        bx0 \<le> ax0 \<and> by0 \<le> ay0 \<and> ax1 \<le> bx1 \<and> ay1 \<le> by1)"

definition page_box :: "image \<Rightarrow> box" where
  "page_box page = (0, 0, width page, height page)"

definition cell_box :: "int \<times> int \<Rightarrow> int \<Rightarrow> nat \<Rightarrow> box" where
  \<comment> \<open>the cell of index \<open>k\<close>: its quarter size, placed at its paste position\<close>
  "cell_box final_size border_size k =
     (let pos = paste_position final_size border_size k;
          quarter_size = quarter_size_for final_size border_size k
      in (fst pos, snd pos, fst pos + fst quarter_size, snd pos + snd quarter_size))"

definition inner_box :: "int \<times> int \<times> int \<times> int \<Rightarrow> box \<Rightarrow> box" where
  \<comment> \<open>the part of a pasted, bordered image that holds the resized image itself\<close>
  "inner_box border bx =
     (case border of (l, t, r, b) \<Rightarrow> case bx of (x0, y0, x1, y1) \<Rightarrow>
        (x0 + l, y0 + t, x1 - r, y1 - b))"

definition merged_name :: "nat \<Rightarrow> string" where
  "merged_name k = ''merged_'' @ py_str k @ ''.jpg''"

subsection \<open>Example inputs\<close>

definition plain_image :: "int \<Rightarrow> int \<Rightarrow> image" where
  "plain_image w h = \<lparr>width = w, height = h, pasted = []\<rparr>"

definition fs_four :: filesystem where
  \<comment> \<open>four portrait images, each of exactly the size of its cell on the default page\<close>
  "fs_four = [''images'' \<mapsto>
     [(''a.jpg'', ImageFile (plain_image 520 850)), (''b.jpg'', ImageFile (plain_image 491 820)),
      (''c.jpg'', ImageFile (plain_image 520 850)), (''d.jpg'', ImageFile (plain_image 491 820))]]"

definition fs_landscape :: filesystem where
  \<comment> \<open>one landscape image that is nearly square\<close>
  "fs_landscape = [''images'' \<mapsto> [(''wide.jpg'', ImageFile (plain_image 1050 1040))]]"

definition fs_five :: filesystem where
  \<comment> \<open>five images, a text file and a hidden file; no output folder yet\<close>
  "fs_five = [''images'' \<mapsto>
     [(''a.jpg'', ImageFile (plain_image 491 820)), (''b.png'', ImageFile (plain_image 1050 1040)),
      (''.hidden.jpg'', ImageFile (plain_image 300 400)),
      (''c.jpg'', ImageFile (plain_image 3000 4000)), (''d.jpg'', ImageFile (plain_image 4000 3000)),
      (''e.gif'', ImageFile (plain_image 64 64))]]"

definition fs_empty :: filesystem where
  \<comment> \<open>an empty input folder\<close>
  "fs_empty = [''images'' \<mapsto> []]"

section \<open>Rounding to a float\<close>

lemma round_half_even_error: "\<bar>of_int (round_half_even y) - y\<bar> \<le> 1 / 2"
proof -
  have "of_int \<lfloor>y\<rfloor> \<le> y" "y < of_int \<lfloor>y\<rfloor> + 1" by linarith+
  then show ?thesis
    by (auto simp add: round_half_even_def Let_def)
qed

lemma round_half_even_of_int [simp]: "round_half_even (of_int n) = n"
  by (simp add: round_half_even_def)

lemma round_half_even_mono:
  assumes "y \<le> z"
  shows "round_half_even y \<le> round_half_even z"
proof (cases "\<lfloor>y\<rfloor> = \<lfloor>z\<rfloor>")
  case True
  with assms show ?thesis
    by (auto simp add: round_half_even_def Let_def)
next
  case False
  with assms have "\<lfloor>y\<rfloor> + 1 \<le> \<lfloor>z\<rfloor>"
    using floor_mono [of y z] by linarith
  moreover have "round_half_even y \<le> \<lfloor>y\<rfloor> + 1"
    by (auto simp add: round_half_even_def Let_def)
  moreover have "\<lfloor>z\<rfloor> \<le> round_half_even z"
    by (auto simp add: round_half_even_def Let_def)
  ultimately show ?thesis by linarith
qed

lemma bitlen_powi_bounds:
  assumes "0 < p"
  shows "(2::rat) powi (bitlen p - 1) \<le> of_int p" and "(of_int p :: rat) < 2 powi (bitlen p)"
proof -
  from assms have b: "1 \<le> bitlen p"
    by (simp add: bitlen_alt_def)
  have "2 ^ nat (bitlen p - 1) \<le> p" "p < 2 ^ nat (bitlen p)"
    using bitlen_bounds [OF assms] by simp_all
  then have "(of_int (2 ^ nat (bitlen p - 1)) :: rat) \<le> of_int p"
    "(of_int p :: rat) < of_int (2 ^ nat (bitlen p))"
    by (simp_all only: of_int_le_iff of_int_less_iff)
  with b show "(2::rat) powi (bitlen p - 1) \<le> of_int p"
    and "(of_int p :: rat) < 2 powi (bitlen p)"
    by (simp_all add: power_int_def)
qed

lemma ilog2_bounds:
  assumes "0 < x"
  shows "2 powi (ilog2 x) \<le> x" and "x < 2 powi (ilog2 x + 1)"
proof -
  obtain p q where pq: "quotient_of x = (p, q)" by (cases "quotient_of x")
  then have q: "0 < q" and x: "x = of_int p / of_int q"
    by (rule quotient_of_denom_pos, rule quotient_of_div)
  with assms have p: "0 < p"
    by (simp add: zero_less_divide_iff)
  define d where "d = bitlen p - bitlen q"
  have lo: "2 powi (d - 1) \<le> x"
  proof -
    have "(2::rat) powi (d - 1) = 2 powi (bitlen p - 1) / 2 powi (bitlen q)"
      by (simp add: d_def power_int_diff)
    also have "\<dots> \<le> of_int p / 2 powi (bitlen q)"
      using bitlen_powi_bounds(1) [OF p] by (simp add: divide_right_mono)
    also have "\<dots> \<le> of_int p / of_int q"
      using bitlen_powi_bounds(2) [OF q] p q by (simp add: frac_le)
    finally show ?thesis by (simp add: x)
  qed
  have hi: "x < 2 powi (d + 1)"
  proof -
    have "x = of_int p / of_int q" by (rule x)
    also have "\<dots> < 2 powi (bitlen p) / of_int q"
      using bitlen_powi_bounds(2) [OF p] q by (simp add: divide_strict_right_mono)
    also have "\<dots> \<le> 2 powi (bitlen p) / 2 powi (bitlen q - 1)"
      using bitlen_powi_bounds(1) [OF q] by (simp add: frac_le)
    also have "\<dots> = 2 powi (d + 1)"
      by (simp add: d_def power_int_diff [symmetric] algebra_simps)
    finally show ?thesis .
  qed
  have e: "ilog2 x = (if 2 powi d \<le> x then d else d - 1)"
    by (simp add: ilog2_def pq d_def Let_def)
  show "2 powi (ilog2 x) \<le> x"
    using lo by (simp add: e)
  show "x < 2 powi (ilog2 x + 1)"
    using hi by (auto simp add: e)
qed


lemma round53_scaled:
  assumes "0 < x"
  defines "s \<equiv> (2::rat) powi (ilog2 x - 52)"
  shows "0 < s" and "2 ^ 52 \<le> x / s" and "x / s < 2 ^ 53"
    and "2 ^ 52 * s = 2 powi (ilog2 x)" and "2 ^ 53 * s = 2 powi (ilog2 x + 1)"
proof -
  show s: "0 < s" by (simp add: s_def)
  have a: "(2::rat) powi (ilog2 x) = 2 ^ 52 * s"
    by (simp add: s_def power_int_diff)
  have b: "(2::rat) powi (ilog2 x + 1) = 2 ^ 53 * s"
    by (simp add: s_def power_int_diff power_int_add)
  show "2 ^ 52 * s = 2 powi (ilog2 x)" "2 ^ 53 * s = 2 powi (ilog2 x + 1)"
    by (simp_all only: a b)
  from ilog2_bounds(1) [OF assms(1)] have "2 ^ 52 * s \<le> x" by (simp only: a)
  with s show "2 ^ 52 \<le> x / s" by (simp add: pos_le_divide_eq)
  from ilog2_bounds(2) [OF assms(1)] have "x < 2 ^ 53 * s" by (simp only: b)
  with s show "x / s < 2 ^ 53" by (simp add: pos_divide_less_eq)
qed

lemma round53_error:
  assumes "0 < x"
  shows "\<bar>round53 x - x\<bar> \<le> x / 2 ^ 53"
proof -
  define s :: rat where "s = 2 powi (ilog2 x - 52)"
  define m where "m = round_half_even (x / s)"
  have s: "0 < s" and lo: "2 ^ 52 * s = 2 powi (ilog2 x)"
    using round53_scaled [OF assms] by (simp_all add: s_def)
  have r: "round53 x = of_int m * s"
    by (simp add: round53_def s_def m_def Let_def)
  have "(of_int m - x / s) * s = round53 x - x"
    using s by (simp add: r left_diff_distrib)
  then have "\<bar>round53 x - x\<bar> = \<bar>(of_int m - x / s) * s\<bar>" by simp
  also have "\<dots> = \<bar>of_int m - x / s\<bar> * s"
    using s by (simp only: abs_mult abs_of_pos)
  also have "\<dots> \<le> 1 / 2 * s"
    using round_half_even_error [of "x / s"] s
    by (intro mult_right_mono) (simp_all add: m_def)
  also have "\<dots> = 2 powi (ilog2 x) / 2 ^ 53"
    by (simp add: lo [symmetric])
  also have "\<dots> \<le> x / 2 ^ 53"
    using ilog2_bounds(1) [OF assms] by (simp add: divide_right_mono)
  finally show ?thesis .
qed

lemma round53_range:
  assumes "0 < x"
  shows "2 powi (ilog2 x) \<le> round53 x" and "round53 x \<le> 2 powi (ilog2 x + 1)"
proof -
  define s :: rat where "s = 2 powi (ilog2 x - 52)"
  define m where "m = round_half_even (x / s)"
  have s: "0 < s" and y: "2 ^ 52 \<le> x / s" "x / s < 2 ^ 53"
    and lo: "2 ^ 52 * s = 2 powi (ilog2 x)" and hi: "2 ^ 53 * s = 2 powi (ilog2 x + 1)"
    using round53_scaled [OF assms] by (simp_all add: s_def)
  have r: "round53 x = of_int m * s"
    by (simp add: round53_def s_def m_def Let_def)
  have "round_half_even (of_int (2 ^ 52)) \<le> m"
    unfolding m_def using y(1) by (intro round_half_even_mono) simp
  then have "(2 ^ 52 :: int) \<le> m" by (simp only: round_half_even_of_int)
  then have "(of_int (2 ^ 52) :: rat) \<le> of_int m" by (simp only: of_int_le_iff)
  then have "2 ^ 52 * s \<le> of_int m * s"
    using s by (intro mult_right_mono) simp_all
  then show "2 powi (ilog2 x) \<le> round53 x" by (simp only: lo r)
  have "m \<le> round_half_even (of_int (2 ^ 53))"
    unfolding m_def using y(2) by (intro round_half_even_mono) simp
  then have "m \<le> (2 ^ 53 :: int)" by (simp only: round_half_even_of_int)
  then have "(of_int m :: rat) \<le> of_int (2 ^ 53)" by (simp only: of_int_le_iff)
  then have "of_int m * s \<le> 2 ^ 53 * s"
    using s by (intro mult_right_mono) simp_all
  then show "round53 x \<le> 2 powi (ilog2 x + 1)" by (simp only: hi r)
qed

lemma round53_pos: "0 < x \<Longrightarrow> 0 < round53 x"
  using round53_range(1) [of x] by (rule_tac less_le_trans [of _ "2 powi (ilog2 x)"]) simp_all

lemma ilog2_mono:
  assumes "0 < x" and "x \<le> y"
  shows "ilog2 x \<le> ilog2 y"
proof (rule ccontr)
  assume "\<not> ilog2 x \<le> ilog2 y"
  then have "ilog2 y + 1 \<le> ilog2 x" by simp
  then have "(2::rat) powi (ilog2 y + 1) \<le> 2 powi (ilog2 x)"
    by (intro power_int_increasing) simp_all
  also have "\<dots> \<le> x" using assms(1) by (rule ilog2_bounds(1))
  also have "\<dots> \<le> y" by (rule assms(2))
  finally show False
    using ilog2_bounds(2) [of y] assms by simp
qed

lemma round53_mono:
  assumes "0 < x" and "x \<le> y"
  shows "round53 x \<le> round53 y"
proof (cases "ilog2 x = ilog2 y")
  case True
  define s :: rat where "s = 2 powi (ilog2 y - 52)"
  have s: "0 < s" by (simp add: s_def)
  have "round_half_even (x / s) \<le> round_half_even (y / s)"
    using assms(2) s by (intro round_half_even_mono) (simp add: divide_right_mono)
  then have "(of_int (round_half_even (x / s)) :: rat) \<le> of_int (round_half_even (y / s))"
    by (simp only: of_int_le_iff)
  then have "of_int (round_half_even (x / s)) * s \<le> of_int (round_half_even (y / s)) * s"
    using s by (intro mult_right_mono) simp_all
  then show ?thesis
    by (simp add: round53_def True s_def Let_def)
next
  case False
  with ilog2_mono [OF assms] have "ilog2 x + 1 \<le> ilog2 y" by simp
  then have "(2::rat) powi (ilog2 x + 1) \<le> 2 powi (ilog2 y)"
    by (intro power_int_increasing) simp_all
  moreover have "round53 x \<le> 2 powi (ilog2 x + 1)"
    using assms(1) by (rule round53_range(2))
  moreover have "2 powi (ilog2 y) \<le> round53 y"
    using assms by (intro round53_range(1)) simp
  ultimately show ?thesis by linarith
qed

lemma py_float_error: "\<bar>py_float x - x\<bar> \<le> \<bar>x\<bar> / 2 ^ 53"
proof -
  consider "x = 0" | "0 < x" | "x < 0" by linarith
  then show ?thesis
  proof cases
    case 1
    then show ?thesis by (simp add: py_float_def)
  next
    case 2
    then show ?thesis using round53_error [of x] by (simp add: py_float_def)
  next
    case 3
    then have "\<bar>round53 (- x) - (- x)\<bar> \<le> (- x) / 2 ^ 53"
      by (intro round53_error) simp
    moreover have "\<bar>- round53 (- x) - x\<bar> = \<bar>round53 (- x) - (- x)\<bar>"
      by (simp add: abs_minus_commute)
    ultimately show ?thesis using 3 by (simp add: py_float_def)
  qed
qed

lemma py_float_pos: "0 < x \<Longrightarrow> 0 < py_float x"
  by (simp add: py_float_def round53_pos)

lemma py_float_neg: "x < 0 \<Longrightarrow> py_float x < 0"
  using round53_pos [of "- x"] by (simp add: py_float_def)

lemma py_float_zero [simp]: "py_float 0 = 0"
  by (simp add: py_float_def)

lemma py_float_nonneg: "0 \<le> x \<Longrightarrow> 0 \<le> py_float x"
  using py_float_pos [of x] by (cases "x = 0") (simp_all add: less_imp_le)

lemma py_float_mono:
  assumes "x \<le> y"
  shows "py_float x \<le> py_float y"
proof -
  consider "0 < x" | "x \<le> 0" "0 \<le> y" | "y < 0" by linarith
  then show ?thesis
  proof cases
    case 1
    with assms have "0 < y" by simp
    with 1 assms show ?thesis by (simp add: py_float_def round53_mono)
  next
    case 2
    have "py_float x \<le> 0"
      using 2(1) py_float_neg [of x] by (cases "x = 0") (simp_all add: less_imp_le)
    moreover have "0 \<le> py_float y" using 2(2) by (rule py_float_nonneg)
    ultimately show ?thesis by simp
  next
    case 3
    with assms have "x < 0" by simp
    have "round53 (- y) \<le> round53 (- x)"
      using 3 assms by (intro round53_mono) simp_all
    with 3 \<open>x < 0\<close> show ?thesis by (simp add: py_float_def)
  qed
qed

lemma py_float_of_int:
  assumes "\<bar>n\<bar> < 2 ^ 53"
  shows "py_float (of_int n) = of_int n"
proof -
  have pos: "round53 (of_int k) = of_int k" if k: "0 < k" "k < 2 ^ 53" for k :: int
  proof -
    define e where "e = ilog2 (of_int k)"
    have "(2::rat) powi e \<le> of_int k"
      unfolding e_def using k(1) by (intro ilog2_bounds(1)) simp
    also have "(of_int k :: rat) < of_int (2 ^ 53)"
      using k(2) by (simp only: of_int_less_iff)
    finally have lt: "(2::rat) powi e < 2 powi 53" by simp
    have e: "e \<le> 52"
    proof (rule ccontr)
      assume "\<not> e \<le> 52"
      then have "53 \<le> e" by simp
      then have "(2::rat) powi 53 \<le> 2 powi e"
        by (intro power_int_increasing) simp_all
      with lt show False by simp
    qed
    define j where "j = nat (52 - e)"
    have s: "(2::rat) powi (e - 52) = 1 / 2 ^ j"
      using e by (simp add: j_def power_int_def field_simps)
    have "of_int k / (1 / 2 ^ j) = (of_int (k * 2 ^ j) :: rat)" by simp
    then have "round_half_even (of_int k / (1 / 2 ^ j)) = k * 2 ^ j"
      by (simp only: round_half_even_of_int)
    then show ?thesis
      by (simp add: round53_def e_def [symmetric] s Let_def)
  qed
  consider "n = 0" | "0 < n" | "n < 0" by linarith
  then show ?thesis
  proof cases
    case 1
    then show ?thesis by simp
  next
    case 2
    with assms pos [of n] show ?thesis by (simp add: py_float_def)
  next
    case 3
    with assms pos [of "- n"] show ?thesis by (simp add: py_float_def)
  qed
qed

lemma py_float_upper:
  assumes "0 \<le> x"
  shows "py_float x \<le> x * (1 + 1 / 2 ^ 53)"
proof -
  have "py_float x - x \<le> \<bar>x\<bar> / 2 ^ 53"
    using py_float_error [of x] by (simp only: abs_le_iff)
  moreover have "x * (1 + 1 / 2 ^ 53) = x + \<bar>x\<bar> / 2 ^ 53"
    using assms by (simp only: abs_of_nonneg distrib_left mult_1_right times_divide_eq_right)
  ultimately show ?thesis by linarith
qed

lemma py_float_lower:
  assumes "0 \<le> x"
  shows "x * (1 - 1 / 2 ^ 53) \<le> py_float x"
proof -
  have "- (py_float x - x) \<le> \<bar>x\<bar> / 2 ^ 53"
    using py_float_error [of x] by (simp only: abs_le_iff)
  moreover have "x * (1 - 1 / 2 ^ 53) = x - \<bar>x\<bar> / 2 ^ 53"
    using assms by (simp only: abs_of_nonneg right_diff_distrib mult_1_right times_divide_eq_right)
  ultimately show ?thesis by linarith
qed

lemma min_py_float: "min (py_float a) (py_float b) = py_float (min a b)"
  using py_float_mono [of a b] py_float_mono [of b a]
  by (cases "a \<le> b") (auto simp add: min_def)

lemma three_roundings:
  fixes n a \<rho> b v :: rat
  assumes a: "n * (1 - 1 / 2 ^ 53) \<le> a" "a \<le> n * (1 + 1 / 2 ^ 53)"
    and b: "\<rho> * (1 - 1 / 2 ^ 53) \<le> b" "b \<le> \<rho> * (1 + 1 / 2 ^ 53)"
    and v: "a * b * (1 - 1 / 2 ^ 53) \<le> v" "v \<le> a * b * (1 + 1 / 2 ^ 53)"
    and n: "0 \<le> n" and \<rho>: "0 \<le> \<rho>"
  shows "n * \<rho> * (1 - 3 / 2 ^ 53) \<le> v" and "v \<le> n * \<rho> * (1 + 4 / 2 ^ 53)"
proof -
  define U :: rat where "U = 1 / 2 ^ 53"
  have U: "0 \<le> U" "U \<le> 1" "(1 + U) * (1 + U) * (1 + U) \<le> 1 + 4 * U"
    "1 - 3 * U \<le> (1 - U) * (1 - U) * (1 - U)" "0 \<le> 1 - U"
    by (simp_all add: U_def)
  have U3: "3 / 2 ^ 53 = 3 * U" and U4: "4 / 2 ^ 53 = 4 * U"
    by (simp_all add: U_def)
  note a' = a [folded U_def] and b' = b [folded U_def] and v' = v [folded U_def]
  have a0: "0 \<le> a"
  proof -
    have "0 \<le> n * (1 - U)" using n U(5) by (rule mult_nonneg_nonneg)
    with a'(1) show ?thesis by simp
  qed
  have b0: "0 \<le> b"
  proof -
    have "0 \<le> \<rho> * (1 - U)" using \<rho> U(5) by (rule mult_nonneg_nonneg)
    with b'(1) show ?thesis by simp
  qed
  have t0: "0 \<le> n * \<rho>" using n \<rho> by simp
  have "a * b \<le> (n * (1 + U)) * (\<rho> * (1 + U))"
    using a'(2) b'(2) a0 b0 n U by (intro mult_mono) simp_all
  then have "a * b * (1 + U) \<le> (n * (1 + U)) * (\<rho> * (1 + U)) * (1 + U)"
    using U by (intro mult_right_mono) simp_all
  also have "\<dots> = n * \<rho> * ((1 + U) * (1 + U) * (1 + U))" by (simp add: algebra_simps)
  also have "\<dots> \<le> n * \<rho> * (1 + 4 * U)"
    using U(3) t0 by (rule mult_left_mono)
  finally have "a * b * (1 + U) \<le> n * \<rho> * (1 + 4 * U)" .
  with v'(2) show "v \<le> n * \<rho> * (1 + 4 / 2 ^ 53)"
    by (simp only: U4)
  have "n * \<rho> * (1 - 3 * U) \<le> n * \<rho> * ((1 - U) * (1 - U) * (1 - U))"
    using U(4) t0 by (rule mult_left_mono)
  also have "\<dots> = (n * (1 - U)) * (\<rho> * (1 - U)) * (1 - U)" by (simp add: algebra_simps)
  also have "\<dots> \<le> a * b * (1 - U)"
  proof -
    have "(n * (1 - U)) * (\<rho> * (1 - U)) \<le> a * b"
      using a'(1) b'(1) a0 n \<rho> U by (intro mult_mono) simp_all
    then show ?thesis using U(5) by (rule mult_right_mono)
  qed
  finally have "n * \<rho> * (1 - 3 * U) \<le> a * b * (1 - U)" .
  with v'(1) show "n * \<rho> * (1 - 3 / 2 ^ 53) \<le> v"
    by (simp only: U3)
qed

lemma int_times_float_near:
  assumes n: "1 \<le> n" and \<rho>: "0 \<le> \<rho>" and le: "of_int n * \<rho> \<le> of_int c" and c: "c < 2 ^ 51"
  shows "\<bar>int_times_float n (py_float \<rho>) - of_int n * \<rho>\<bar> < 1"
    and "int_times_float n (py_float \<rho>) < of_int c + 1"
    and "0 \<le> int_times_float n (py_float \<rho>)"
proof -
  define a where "a = py_float (of_int n)"
  define b where "b = py_float \<rho>"
  define v where "v = int_times_float n (py_float \<rho>)"
  define t where "t = of_int n * \<rho>"
  have n0: "(0::rat) \<le> of_int n" using n by simp
  have a0: "0 \<le> a" unfolding a_def using n0 by (rule py_float_nonneg)
  have b0: "0 \<le> b" unfolding b_def using \<rho> by (rule py_float_nonneg)
  have ab0: "0 \<le> a * b" using a0 b0 by simp
  have v_eq: "v = py_float (a * b)"
    by (simp add: v_def int_times_float_def a_def b_def)
  have bounds: "t * (1 - 3 / 2 ^ 53) \<le> v" "v \<le> t * (1 + 4 / 2 ^ 53)"
    unfolding t_def
  proof (rule_tac [!] three_roundings [of "of_int n" a \<rho> b v])
    show "of_int n * (1 - 1 / 2 ^ 53) \<le> a" "of_int n * (1 - 1 / 2 ^ 53) \<le> a"
      unfolding a_def using n0 by (rule py_float_lower)+
    show "a \<le> of_int n * (1 + 1 / 2 ^ 53)" "a \<le> of_int n * (1 + 1 / 2 ^ 53)"
      unfolding a_def using n0 by (rule py_float_upper)+
    show "\<rho> * (1 - 1 / 2 ^ 53) \<le> b" "\<rho> * (1 - 1 / 2 ^ 53) \<le> b"
      unfolding b_def using \<rho> by (rule py_float_lower)+
    show "b \<le> \<rho> * (1 + 1 / 2 ^ 53)" "b \<le> \<rho> * (1 + 1 / 2 ^ 53)"
      unfolding b_def using \<rho> by (rule py_float_upper)+
    show "a * b * (1 - 1 / 2 ^ 53) \<le> v" "a * b * (1 - 1 / 2 ^ 53) \<le> v"
      unfolding v_eq using ab0 by (rule py_float_lower)+
    show "v \<le> a * b * (1 + 1 / 2 ^ 53)" "v \<le> a * b * (1 + 1 / 2 ^ 53)"
      unfolding v_eq using ab0 by (rule py_float_upper)+
    show "(0::rat) \<le> of_int n" "(0::rat) \<le> of_int n" by (rule n0)+
    show "0 \<le> \<rho>" "0 \<le> \<rho>" by (rule \<rho>)+
  qed
  have t0: "0 \<le> t" unfolding t_def using n0 \<rho> by simp
  have "(of_int c :: rat) < of_int (2 ^ 51)" using c by (simp only: of_int_less_iff)
  then have tc: "t < 2 ^ 51" using le by (simp add: t_def)
  have "t * (4 / 2 ^ 53) < 2 ^ 51 * (4 / 2 ^ 53)"
    using tc by (intro mult_strict_right_mono) simp_all
  then have e1: "t * (4 / 2 ^ 53) < 1" by simp
  have "t * (3 / 2 ^ 53) \<le> t * (4 / 2 ^ 53)"
    using t0 by (intro mult_left_mono) simp_all
  with e1 have e2: "t * (3 / 2 ^ 53) < 1" by simp
  have "t * (1 + 4 / 2 ^ 53) = t + t * (4 / 2 ^ 53)" by (simp only: distrib_left mult_1_right)
  with bounds(2) e1 have hi: "v < t + 1" by linarith
  have "t * (1 - 3 / 2 ^ 53) = t - t * (3 / 2 ^ 53)" by (simp only: right_diff_distrib mult_1_right)
  with bounds(1) e2 have lo: "t - 1 < v" by linarith
  from lo hi show "\<bar>int_times_float n (py_float \<rho>) - of_int n * \<rho>\<bar> < 1"
    by (simp add: v_def t_def abs_less_iff)
  from hi le show "int_times_float n (py_float \<rho>) < of_int c + 1"
    by (simp add: v_def t_def)
  show "0 \<le> int_times_float n (py_float \<rho>)"
    using ab0 by (simp add: v_def [symmetric] v_eq py_float_nonneg)
qed

section \<open>The size an image is resized to\<close>

lemma new_size_eq:
  assumes "width img \<noteq> 0" and "height img \<noteq> 0"
  shows "new_size q img =
    Inr (py_int (int_times_float (width img) (py_float (scale_factor q img))),
         py_int (int_times_float (height img) (py_float (scale_factor q img))))"
  using assms by (simp add: new_size_def truediv_def scale_factor_def min_py_float Let_def)

lemma py_int_mono: "x \<le> y \<Longrightarrow> py_int x \<le> py_int y"
proof -
  assume xy: "x \<le> y"
  consider "0 \<le> x" | "x < 0" "0 \<le> y" | "y < 0" by linarith
  then show ?thesis
  proof cases
    case 1
    with xy show ?thesis by (simp add: py_int_def floor_mono)
  next
    case 2
    have "\<lceil>x\<rceil> \<le> 0" using 2(1) by (simp add: ceiling_le_iff)
    moreover have "0 \<le> \<lfloor>y\<rfloor>" using 2(2) by simp
    ultimately have "\<lceil>x\<rceil> \<le> \<lfloor>y\<rfloor>" by (rule order_trans)
    with 2 show ?thesis by (simp add: py_int_def)
  next
    case 3
    with xy show ?thesis by (simp add: py_int_def ceiling_mono)
  qed
qed

lemma int_times_float_mono:
  assumes "m \<le> n" and "0 \<le> r"
  shows "int_times_float m r \<le> int_times_float n r"
proof -
  have "py_float (of_int m) \<le> py_float (of_int n)"
    using assms(1) by (intro py_float_mono) simp
  then have "py_float (of_int m) * r \<le> py_float (of_int n) * r"
    using assms(2) by (rule mult_right_mono)
  then show ?thesis
    unfolding int_times_float_def by (rule py_float_mono)
qed

lemma int_times_float_nonpos:
  assumes "0 \<le> n" and "r \<le> 0"
  shows "py_int (int_times_float n r) \<le> 0"
proof -
  have "0 \<le> py_float (of_int n)" using assms(1) by (intro py_float_nonneg) simp
  then have "py_float (of_int n) * r \<le> 0"
    using assms(2) by (rule mult_nonneg_nonpos)
  then have "py_float (py_float (of_int n) * r) \<le> py_float 0"
    by (rule py_float_mono)
  then have "int_times_float n r \<le> 0"
    by (simp add: int_times_float_def)
  then have "py_int (int_times_float n r) \<le> py_int 0"
    by (rule py_int_mono)
  then show ?thesis by (simp add: py_int_def)
qed

lemma scale_factor_pos_iff:
  assumes "1 \<le> width img" and "1 \<le> height img"
  shows "0 < scale_factor q img \<longleftrightarrow> 0 < fst q \<and> 0 < snd q"
  using assms by (simp add: scale_factor_def zero_less_divide_iff)

lemma scale_factor_le:
  assumes "1 \<le> width img" and "1 \<le> height img"
  shows "of_int (width img) * scale_factor q img \<le> of_int (fst q)"
    and "of_int (height img) * scale_factor q img \<le> of_int (snd q)"
proof -
  have w: "(0::rat) < of_int (width img)" and h: "(0::rat) < of_int (height img)"
    using assms by simp_all
  have "scale_factor q img \<le> of_int (fst q) / of_int (width img)"
    by (simp add: scale_factor_def)
  then show "of_int (width img) * scale_factor q img \<le> of_int (fst q)"
    using w by (simp add: pos_le_divide_eq mult.commute)
  have "scale_factor q img \<le> of_int (snd q) / of_int (height img)"
    by (simp add: scale_factor_def)
  then show "of_int (height img) * scale_factor q img \<le> of_int (snd q)"
    using h by (simp add: pos_le_divide_eq mult.commute)
qed

text \<open>In a cell that is not negative, the new size stays within the cell.\<close>

lemma new_size_in_cell:
  assumes ns: "new_size q img = Inr (nw, nh)"
    and w: "1 \<le> width img" and h: "1 \<le> height img"
    and q: "0 \<le> fst q" "fst q < 2 ^ 51" "0 \<le> snd q" "snd q < 2 ^ 51"
  shows "0 \<le> nw" and "nw \<le> fst q" and "0 \<le> nh" and "nh \<le> snd q"
    and "\<bar>nw - \<lfloor>of_int (width img) * scale_factor q img\<rfloor>\<bar> \<le> 1"
    and "\<bar>nh - \<lfloor>of_int (height img) * scale_factor q img\<rfloor>\<bar> \<le> 1"
proof -
  define \<rho> where "\<rho> = scale_factor q img"
  from ns w h have nw: "nw = py_int (int_times_float (width img) (py_float \<rho>))"
    and nh: "nh = py_int (int_times_float (height img) (py_float \<rho>))"
    by (simp_all add: new_size_eq \<rho>_def)
  have \<rho>0: "0 \<le> \<rho>"
    using w h q(1,3) by (simp add: \<rho>_def scale_factor_def)
  note lw = scale_factor_le(1) [OF w h, of q, folded \<rho>_def]
  note lh = scale_factor_le(2) [OF w h, of q, folded \<rho>_def]
  note W = int_times_float_near [OF w \<rho>0 lw q(2)]
  note H = int_times_float_near [OF h \<rho>0 lh q(4)]
  from W(3) have nw': "nw = \<lfloor>int_times_float (width img) (py_float \<rho>)\<rfloor>"
    by (simp add: nw py_int_def)
  from H(3) have nh': "nh = \<lfloor>int_times_float (height img) (py_float \<rho>)\<rfloor>"
    by (simp add: nh py_int_def)
  show "0 \<le> nw" using W(3) by (simp add: nw')
  show "0 \<le> nh" using H(3) by (simp add: nh')
  show "nw \<le> fst q" using W(2) unfolding nw' by (simp add: floor_le_iff)
  show "nh \<le> snd q" using H(2) unfolding nh' by (simp add: floor_le_iff)
  show "\<bar>nw - \<lfloor>of_int (width img) * scale_factor q img\<rfloor>\<bar> \<le> 1"
    using W(1) unfolding nw' \<rho>_def [symmetric] by linarith
  show "\<bar>nh - \<lfloor>of_int (height img) * scale_factor q img\<rfloor>\<bar> \<le> 1"
    using H(1) unfolding nh' \<rho>_def [symmetric] by linarith
qed

text \<open>A new size that is positive somewhere comes from a cell that is positive.\<close>

lemma new_size_cell_pos:
  assumes ns: "new_size q img = Inr (nw, nh)"
    and w: "1 \<le> width img" and h: "1 \<le> height img"
    and pos: "1 \<le> nw \<or> 1 \<le> nh"
  shows "0 < fst q" and "0 < snd q"
proof -
  define \<rho> where "\<rho> = scale_factor q img"
  from ns w h have nw: "nw = py_int (int_times_float (width img) (py_float \<rho>))"
    and nh: "nh = py_int (int_times_float (height img) (py_float \<rho>))"
    by (simp_all add: new_size_eq \<rho>_def)
  have \<rho>: "0 < \<rho>"
  proof (rule ccontr)
    assume "\<not> 0 < \<rho>"
    then have "py_float \<rho> \<le> py_float 0" by (intro py_float_mono) simp
    then have "py_float \<rho> \<le> 0" by simp
    then have "nw \<le> 0" "nh \<le> 0"
      using w h unfolding nw nh by (intro int_times_float_nonpos; simp)+
    with pos show False by simp
  qed
  then show "0 < fst q" "0 < snd q"
    using scale_factor_pos_iff [OF w h, of q] by (simp_all add: \<rho>_def)
qed

lemma new_size_portrait:
  assumes ns: "new_size q img = Inr (nw, nh)"
    and w: "1 \<le> width img" and wh: "width img \<le> height img"
    and pos: "1 \<le> nw"
  shows "nw \<le> nh"
proof -
  define \<rho> where "\<rho> = scale_factor q img"
  from w wh have h: "1 \<le> height img" by simp
  from ns w h have nw: "nw = py_int (int_times_float (width img) (py_float \<rho>))"
    and nh: "nh = py_int (int_times_float (height img) (py_float \<rho>))"
    by (simp_all add: new_size_eq \<rho>_def)
  have "0 \<le> py_float \<rho>"
  proof (rule ccontr)
    assume "\<not> 0 \<le> py_float \<rho>"
    then have "py_float \<rho> \<le> 0" by simp
    then have "nw \<le> 0"
      using w unfolding nw by (intro int_times_float_nonpos) simp_all
    with pos show False by simp
  qed
  then show ?thesis
    unfolding nw nh using wh by (intro py_int_mono int_times_float_mono)
qed

section \<open>Properties of the Compositor\<close>

lemma image_open_fs: "snd (image_open fs p) = fs"
  by (simp add: image_open_def split: option.splits node.splits)

lemma process_image_fs:
  "snd (process_image fs final_size border_size border_color idx p) = fs"
proof -
  obtain r where "image_open fs p = (r, fs)"
    using image_open_fs [of fs p] by (cases "image_open fs p") simp
  then show ?thesis
    by (simp add: process_image_def Let_def split: sum.splits)
qed

lemma process_images_fs:
  "snd (process_images fs final_size border_size border_color idx images ps) = fs"
proof (induction ps arbitrary: idx images)
  case Nil
  show ?case by simp
next
  case (Cons p ps)
  obtain r where r: "process_image fs final_size border_size border_color idx p = (r, fs)"
    using process_image_fs [of fs final_size border_size border_color idx p]
    by (cases "process_image fs final_size border_size border_color idx p") simp
  show ?case
    by (cases r) (simp_all add: r Cons.IH)
qed


lemma image_open_Inr:
  assumes "image_open fs p = (Inr img, fs')"
  shows "fs' = fs" and "1 \<le> width img" and "1 \<le> height img"
  using assms
  by (auto simp add: image_open_def split: option.splits node.splits if_splits)

lemma rotate_if_landscape_size:
  "width (rotate_if_landscape img) = min (width img) (height img)"
  "height (rotate_if_landscape img) = max (width img) (height img)"
  by (simp_all add: rotate_if_landscape_def rotate90_expand_def)

lemma resize_Inr:
  assumes "resize img sz = Inr out" and "1 \<le> width img" and "1 \<le> height img"
  shows "width out = fst sz" and "height out = snd sz" and "1 \<le> fst sz" and "1 \<le> snd sz"
  using assms by (auto simp add: resize_def split: if_splits)

lemma expand_Inr:
  assumes "expand img (border_for border_size idx) color = Inr out"
  shows "width out = width img + border_size"
    and "height out = height img + (if odd idx then border_size else 0)"
    and "pasted out = [(0, 0, width img, height img)]"
  using assms
  by (auto simp add: expand_def border_for_def image_new_def paste_def odd_iff_mod_2_eq_one
      split: if_splits)

lemma process_image_Inr:
  assumes "process_image fs final_size border_size border_color idx p = (Inr out, fs')"
  obtains img nw nh where
    "image_open fs p = (Inr img, fs)"
    "new_size (quarter_size_for final_size border_size idx) (rotate_if_landscape img) = Inr (nw, nh)"
    "1 \<le> nw" "1 \<le> nh"
    "width out = nw + border_size"
    "height out = nh + (if odd idx then border_size else 0)"
    "pasted out = [(0, 0, nw, nh)]"
proof -
  obtain r where op0: "image_open fs p = (r, fs)"
    using image_open_fs [of fs p] by (cases "image_open fs p") simp
  with assms obtain img where r: "r = Inr img"
    by (cases r) (simp_all add: process_image_def)
  note op = op0 [unfolded r]
  note o = image_open_Inr [OF op]
  let ?img = "rotate_if_landscape img"
  from o have pos: "1 \<le> width ?img" "1 \<le> height ?img"
    by (simp_all add: rotate_if_landscape_size)
  from assms op obtain sz where
    ns: "new_size (quarter_size_for final_size border_size idx) ?img = Inr sz"
    by (cases "new_size (quarter_size_for final_size border_size idx) ?img")
      (simp_all add: process_image_def Let_def)
  from assms op ns obtain resized where
    rs: "resize ?img sz = Inr resized"
    by (cases "resize ?img sz") (simp_all add: process_image_def Let_def)
  from assms op ns rs have
    ex: "expand resized (border_for border_size idx) border_color = Inr out"
    by (simp add: process_image_def Let_def)
  note r = resize_Inr [OF rs pos]
  note e = expand_Inr [OF ex]
  show thesis
  proof (rule that [of img "fst sz" "snd sz"])
    show "image_open fs p = (Inr img, fs)" by (rule op)
    show "new_size (quarter_size_for final_size border_size idx) ?img = Inr (fst sz, snd sz)"
      using ns by simp
    show "1 \<le> fst sz" "1 \<le> snd sz" by (rule r(3), rule r(4))
    show "width out = fst sz + border_size" using e(1) r(1) by simp
    show "height out = snd sz + (if odd idx then border_size else 0)" using e(2) r(2) by simp
    show "pasted out = [(0, 0, fst sz, snd sz)]" using e(3) r(1,2) by simp
  qed
qed


lemma process_image_fst_Inr:
  assumes "fst (process_image fs final_size border_size border_color idx p) = Inr out"
  shows "process_image fs final_size border_size border_color idx p = (Inr out, fs)"
  using assms process_image_fs [of fs final_size border_size border_color idx p]
  by (cases "process_image fs final_size border_size border_color idx p") simp

lemma resize_and_merge_fs:
  "snd (resize_and_merge fs image_paths final_size border_size border_color) = fs"
proof -
  obtain r where
    "process_images fs final_size border_size border_color 0 [] image_paths = (r, fs)"
    using process_images_fs [of fs final_size border_size border_color 0 "[]" image_paths]
    by (cases "process_images fs final_size border_size border_color 0 [] image_paths") simp
  then show ?thesis
    by (simp add: resize_and_merge_def split: sum.splits)
qed

text \<open>
  C10. The Compositor writes nothing: whatever the paths and parameters, and whether it
  returns a page or raises, the filesystem after \<open>resize_and_merge\<close> is the filesystem
  before it. Its only access to the filesystem is \<open>image_open\<close>; saving and removing
  files occur in the Batcher alone.
\<close>

theorem resize_and_merge_writes_nothing:
  "snd (resize_and_merge fs image_paths final_size border_size border_color) = fs"
  by (rule resize_and_merge_fs)

text \<open>
  C2, as the code has it. The border added to a resized image depends on the parity of
  its index: every image is padded on the right by the border size, an image at an odd
  index also at the bottom, and an image at an even index not at the bottom. The resized
  image sits at the top-left corner of the bordered one.
\<close>

theorem padding_by_index_parity:
  assumes "fst (process_image fs final_size border_size border_color idx p) = Inr out"
  shows "\<exists>img nw nh.
    fst (image_open fs p) = Inr img \<and>
    new_size (quarter_size_for final_size border_size idx) (rotate_if_landscape img) = Inr (nw, nh) \<and>
    width out = nw + border_size \<and>
    height out = nh + (if odd idx then border_size else 0) \<and>
    pasted out = [(0, 0, nw, nh)]"
proof -
  note run = process_image_fst_Inr [OF assms]
  from run show ?thesis
  proof (rule process_image_Inr)
    fix img nw nh
    assume "image_open fs p = (Inr img, fs)"
      and "new_size (quarter_size_for final_size border_size idx) (rotate_if_landscape img) = Inr (nw, nh)"
      and "width out = nw + border_size"
      and "height out = nh + (if odd idx then border_size else 0)"
      and "pasted out = [(0, 0, nw, nh)]"
    then show ?thesis by (intro exI [of _ img] exI [of _ nw] exI [of _ nh]) simp
  qed
qed

text \<open>
  At index 1 of the default page a 491 x 820 image keeps its size and is padded to
  550 x 879.
\<close>

theorem padding_by_index_parity_witness:
  "fst (process_image fs_four (1100, 1700) 59 ''white'' 1 (''images'', ''b.jpg''))
     = Inr \<lparr>width = 550, height = 879, pasted = [(0, 0, 491, 820)]\<rparr>
   \<and> (\<exists>img nw nh.
        fst (image_open fs_four (''images'', ''b.jpg'')) = Inr img \<and>
        new_size (quarter_size_for (1100, 1700) 59 1) (rotate_if_landscape img) = Inr (nw, nh) \<and>
        nw + 59 = 550 \<and> nh + 59 = 879)"
proof -
  have run: "fst (process_image fs_four (1100, 1700) 59 ''white'' 1 (''images'', ''b.jpg''))
     = Inr \<lparr>width = 550, height = 879, pasted = [(0, 0, 491, 820)]\<rparr>"
    by code_simp
  from padding_by_index_parity [OF run] run show ?thesis by simp
qed

text \<open>
  C2, as stated, fails at index 0: the two parities get different borders, and a
  520 x 850 image at index 0 of the default page, which keeps its size, becomes 579 x 850:
  59 pixels were added on the right and none at the bottom.
\<close>

theorem even_index_bottom_unpadded:
  "border_for 59 0 = (0, 0, 59, 0) \<and> border_for 59 1 = (0, 0, 59, 59) \<and>
   fst (process_image fs_four (1100, 1700) 59 ''white'' 0 (''images'', ''a.jpg''))
     = Inr \<lparr>width = 579, height = 850, pasted = [(0, 0, 520, 850)]\<rparr>"
  by code_simp

text \<open>
  C6. An image with positive dimensions, resized for a cell that is not negative and
  below \<open>2 ^ 51\<close> in both dimensions, gets the size
  \<open>(int(width * r), int(height * r))\<close> for the one float \<open>r\<close> that is the rounded
  \<open>scale_factor\<close>, the smaller of cell width / image width and cell height / image height.
  Neither new dimension exceeds the cell, and each is within one pixel of the exactly
  scaled dimension, rounded down; so the new width and height are in the ratio of the
  source up to that pixel. \<open>resize\<close> then returns an image of exactly the new size, and
  raises only when a new dimension is 0.
\<close>

theorem resize_fits_cell:
  assumes "1 \<le> width img" and "1 \<le> height img"
    and "0 \<le> fst quarter_size" and "fst quarter_size < 2 ^ 51"
    and "0 \<le> snd quarter_size" and "snd quarter_size < 2 ^ 51"
  shows "\<exists>nw nh.
    new_size quarter_size img = Inr (nw, nh) \<and>
    nw = py_int (int_times_float (width img) (py_float (scale_factor quarter_size img))) \<and>
    nh = py_int (int_times_float (height img) (py_float (scale_factor quarter_size img))) \<and>
    0 \<le> nw \<and> nw \<le> fst quarter_size \<and> 0 \<le> nh \<and> nh \<le> snd quarter_size \<and>
    \<bar>nw - \<lfloor>of_int (width img) * scale_factor quarter_size img\<rfloor>\<bar> \<le> 1 \<and>
    \<bar>nh - \<lfloor>of_int (height img) * scale_factor quarter_size img\<rfloor>\<bar> \<le> 1 \<and>
    (case resize img (nw, nh) of
       Inr img_resized \<Rightarrow> width img_resized = nw \<and> height img_resized = nh
     | Inl e \<Rightarrow> nw = 0 \<or> nh = 0)"
proof -
  let ?nw = "py_int (int_times_float (width img) (py_float (scale_factor quarter_size img)))"
  let ?nh = "py_int (int_times_float (height img) (py_float (scale_factor quarter_size img)))"
  have ns: "new_size quarter_size img = Inr (?nw, ?nh)"
    using assms(1,2) by (simp add: new_size_eq)
  note b = new_size_in_cell [OF ns assms]
  have r: "case resize img (?nw, ?nh) of
       Inr img_resized \<Rightarrow> width img_resized = ?nw \<and> height img_resized = ?nh
     | Inl e \<Rightarrow> ?nw = 0 \<or> ?nh = 0"
    using b(1,3) by (auto simp add: resize_def)
  from ns b r show ?thesis by blast
qed

text \<open>
  A 3000 x 4000 image in the left-hand cell of the default page: the factor is 13/75 and
  the new size 520 x 693.
\<close>

theorem resize_fits_cell_witness:
  "new_size (520, 850) (plain_image 3000 4000) = Inr (520, 693) \<and>
   scale_factor (520, 850) (plain_image 3000 4000) = 13 / 75 \<and>
   resize (plain_image 3000 4000) (520, 693) = Inr (plain_image 520 693)"
proof -
  have e: "new_size (520, 850) (plain_image 3000 4000) = Inr (520, 693)"
    "scale_factor (520, 850) (plain_image 3000 4000) = 13 / 75"
    "resize (plain_image 3000 4000) (520, 693) = Inr (plain_image 520 693)"
    by code_simp+
  have "\<exists>nw nh. new_size (520, 850) (plain_image 3000 4000) = Inr (nw, nh) \<and> nw \<le> 520 \<and> nh \<le> 850"
    using resize_fits_cell [of "plain_image 3000 4000" "(520, 850)"]
    by (simp add: plain_image_def)
  with e show ?thesis by simp
qed

text \<open>
  C7, as the code has it. An image that is wider than tall is rotated, and the rotated
  image has the height and width exchanged, neither cropped; any other image is left as
  it is. So the image that is then scaled is at least as tall as wide, and so is the
  resized image. The border is added after that (see C2).
\<close>

theorem landscape_rotated_to_portrait:
  "(height img < width img \<longrightarrow>
      rotate_if_landscape img = rotate90_expand img \<and>
      width (rotate90_expand img) = height img \<and> height (rotate90_expand img) = width img) \<and>
   (width img \<le> height img \<longrightarrow> rotate_if_landscape img = img) \<and>
   width (rotate_if_landscape img) \<le> height (rotate_if_landscape img) \<and>
   (1 \<le> width img \<and> 1 \<le> height img \<and>
    new_size quarter_size (rotate_if_landscape img) = Inr sz \<and>
    resize (rotate_if_landscape img) sz = Inr img_resized
      \<longrightarrow> width img_resized \<le> height img_resized)"
proof (intro conjI impI)
  assume "height img < width img"
  then show "rotate_if_landscape img = rotate90_expand img"
    by (simp add: rotate_if_landscape_def)
next
  show "width (rotate90_expand img) = height img" "height (rotate90_expand img) = width img"
    by (simp_all add: rotate90_expand_def)
next
  assume "width img \<le> height img"
  then show "rotate_if_landscape img = img"
    by (simp add: rotate_if_landscape_def)
next
  show p: "width (rotate_if_landscape img) \<le> height (rotate_if_landscape img)"
    by (simp add: rotate_if_landscape_size)
  assume a: "1 \<le> width img \<and> 1 \<le> height img \<and>
    new_size quarter_size (rotate_if_landscape img) = Inr sz \<and>
    resize (rotate_if_landscape img) sz = Inr img_resized"
  let ?img = "rotate_if_landscape img"
  from a have pos: "1 \<le> width ?img" "1 \<le> height ?img"
    by (auto simp add: rotate_if_landscape_size)
  from a have rs: "resize ?img sz = Inr img_resized" by simp
  note r = resize_Inr [OF rs pos]
  from a have ns: "new_size quarter_size ?img = Inr (fst sz, snd sz)" by simp
  have "fst sz \<le> snd sz"
    using ns pos(1) p r(3) by (rule new_size_portrait)
  with r show "width img_resized \<le> height img_resized" by simp
qed

text \<open>
  A 1050 x 1040 image becomes 1040 x 1050 and is resized to 520 x 525 for the left-hand
  cell of the default page.
\<close>

theorem landscape_rotated_to_portrait_witness:
  "height (plain_image 1050 1040) < width (plain_image 1050 1040) \<and>
   rotate_if_landscape (plain_image 1050 1040) = plain_image 1040 1050 \<and>
   new_size (520, 850) (rotate_if_landscape (plain_image 1050 1040)) = Inr (520, 525) \<and>
   resize (rotate_if_landscape (plain_image 1050 1040)) (520, 525) = Inr (plain_image 520 525) \<and>
   width (plain_image 520 525) \<le> height (plain_image 520 525)"
proof -
  have e: "rotate_if_landscape (plain_image 1050 1040) = plain_image 1040 1050"
    "new_size (520, 850) (rotate_if_landscape (plain_image 1050 1040)) = Inr (520, 525)"
    "resize (rotate_if_landscape (plain_image 1050 1040)) (520, 525) = Inr (plain_image 520 525)"
    by code_simp+
  have d: "height (plain_image 1050 1040) < width (plain_image 1050 1040)"
    "1 \<le> width (plain_image 1050 1040)" "1 \<le> height (plain_image 1050 1040)"
    by (simp_all add: plain_image_def)
  from landscape_rotated_to_portrait
    [of "plain_image 1050 1040" "(520, 850)" "(520, 525)" "plain_image 520 525"] e d
  show ?thesis by simp
qed

text \<open>
  C7, as stated, fails for the sub-image that is pasted: the same 1050 x 1040 image at
  index 0 is resized to 520 x 525 and padded on the right only, so the image used in the
  composition is 579 x 525, wider than tall.
\<close>

theorem bordered_landscape_wider_than_tall:
  "fst (process_image fs_landscape (1100, 1700) 59 ''white'' 0 (''images'', ''wide.jpg''))
     = Inr \<lparr>width = 579, height = 525, pasted = [(0, 0, 520, 525)]\<rparr> \<and>
   height \<lparr>width = 579, height = 525, pasted = [(0, 0, 520, 525)]\<rparr>
     < width \<lparr>width = 579, height = 525, pasted = [(0, 0, 520, 525)]\<rparr>"
  by code_simp

lemma process_images_Inr:
  assumes "process_images fs final_size border_size border_color idx acc ps = (Inr images, fs')"
  shows "\<exists>rest. images = acc @ rest \<and> length rest = length ps \<and>
    (\<forall>k<length ps. process_image fs final_size border_size border_color (idx + k) (ps ! k)
        = (Inr (rest ! k), fs))"
  using assms
proof (induction ps arbitrary: idx acc)
  case Nil
  then show ?case by simp
next
  case (Cons p ps)
  obtain r where r: "process_image fs final_size border_size border_color idx p = (r, fs)"
    using process_image_fs [of fs final_size border_size border_color idx p]
    by (cases "process_image fs final_size border_size border_color idx p") simp
  with Cons.prems obtain im where im: "r = Inr im"
    by (cases r) simp_all
  from Cons.prems r im have
    "process_images fs final_size border_size border_color (Suc idx) (acc @ [im]) ps = (Inr images, fs')"
    by simp
  from Cons.IH [OF this] obtain rest where rest: "images = (acc @ [im]) @ rest"
    "length rest = length ps"
    "\<forall>k<length ps. process_image fs final_size border_size border_color (Suc idx + k) (ps ! k)
        = (Inr (rest ! k), fs)"
    by blast
  have "\<forall>k<length (p # ps). process_image fs final_size border_size border_color (idx + k) ((p # ps) ! k)
        = (Inr ((im # rest) ! k), fs)"
  proof (intro allI impI)
    fix k assume k: "k < length (p # ps)"
    show "process_image fs final_size border_size border_color (idx + k) ((p # ps) ! k)
        = (Inr ((im # rest) ! k), fs)"
    proof (cases k)
      case 0
      then show ?thesis by (simp add: r im)
    next
      case (Suc j)
      with k rest(3) show ?thesis by simp
    qed
  qed
  with rest(1,2) show ?case
    by (intro exI [of _ "im # rest"]) simp
qed

lemma resize_and_merge_Inr:
  assumes "fst (resize_and_merge fs ps final_size border_size border_color) = Inr page"
  obtains images where
    "4 \<le> length images"
    "\<forall>k<length images. process_image fs final_size border_size border_color k (ps ! k)
        = (Inr (images ! k), fs)"
    "image_new final_size border_color = Inr \<lparr>width = fst final_size, height = snd final_size, pasted = []\<rparr>"
    "page = \<lparr>width = fst final_size, height = snd final_size,
       pasted = map (\<lambda>k. (fst (paste_position final_size border_size k),
                           snd (paste_position final_size border_size k),
                           fst (paste_position final_size border_size k) + width (images ! k),
                           snd (paste_position final_size border_size k) + height (images ! k)))
                  [0, 1, 2, 3]\<rparr>"
proof -
  obtain r fs' where pi: "process_images fs final_size border_size border_color 0 [] ps = (r, fs')"
    by (cases "process_images fs final_size border_size border_color 0 [] ps")
  with assms obtain images where r: "r = Inr images"
    by (cases r) (simp_all add: resize_and_merge_def)
  from process_images_Inr [OF pi [unfolded r]] have
    len: "length images = length ps"
    and each: "\<forall>k<length ps. process_image fs final_size border_size border_color k (ps ! k)
        = (Inr (images ! k), fs)"
    by auto
  from assms pi r obtain final_image where new: "image_new final_size border_color = Inr final_image"
    by (cases "image_new final_size border_color") (simp_all add: resize_and_merge_def)
  then have fi: "final_image = \<lparr>width = fst final_size, height = snd final_size, pasted = []\<rparr>"
    by (auto simp add: image_new_def split: if_splits)
  from assms pi r new have p4: "paste_four final_image images final_size border_size = Inr page"
    by (simp add: resize_and_merge_def)
  then have l4: "4 \<le> length images"
    by (auto simp add: paste_four_def split: if_splits)
  show thesis
  proof (rule that [of images])
    show "4 \<le> length images" by (rule l4)
    show "\<forall>k<length images. process_image fs final_size border_size border_color k (ps ! k)
        = (Inr (images ! k), fs)"
      using each len by simp
    show "image_new final_size border_color = Inr \<lparr>width = fst final_size, height = snd final_size, pasted = []\<rparr>"
      using new fi by simp
    show "page = \<lparr>width = fst final_size, height = snd final_size,
       pasted = map (\<lambda>k. (fst (paste_position final_size border_size k),
                           snd (paste_position final_size border_size k),
                           fst (paste_position final_size border_size k) + width (images ! k),
                           snd (paste_position final_size border_size k) + height (images ! k)))
                  [0, 1, 2, 3]\<rparr>"
      using p4 l4 by (simp add: paste_four_def paste_def fi)
  qed
qed

lemma quarter_size_for_less:
  assumes "0 \<le> border_size" and "fst final_size < 2 ^ 51" and "snd final_size < 2 ^ 51"
  shows "fst (quarter_size_for final_size border_size k) < 2 ^ 51"
    and "snd (quarter_size_for final_size border_size k) < 2 ^ 51"
proof -
  show "fst (quarter_size_for final_size border_size k) < 2 ^ 51"
    using assms
    by (auto simp add: quarter_size_for_def quarter_size_single_border_def
        quarter_size_double_border_def)
  show "snd (quarter_size_for final_size border_size k) < 2 ^ 51"
    using assms
    by (auto simp add: quarter_size_for_def quarter_size_single_border_def
        quarter_size_double_border_def)
qed


lemma bordered_image_in_cell:
  assumes pi: "process_image fs final_size border_size border_color k p = (Inr im, fs)"
    and bs: "0 \<le> border_size"
    and sz: "fst final_size < 2 ^ 51" "snd final_size < 2 ^ 51"
  obtains nw nh where
    "1 \<le> nw" "nw \<le> fst (quarter_size_for final_size border_size k)"
    "1 \<le> nh" "nh \<le> snd (quarter_size_for final_size border_size k)"
    "width im = nw + border_size"
    "height im = nh + (if odd k then border_size else 0)"
proof -
  let ?q = "quarter_size_for final_size border_size k"
  from pi obtain img nw nh where
    op: "image_open fs p = (Inr img, fs)"
    and ns: "new_size ?q (rotate_if_landscape img) = Inr (nw, nh)"
    and pos: "1 \<le> nw" "1 \<le> nh"
    and dims: "width im = nw + border_size" "height im = nh + (if odd k then border_size else 0)"
    by (rule process_image_Inr)
  note o = image_open_Inr [OF op]
  from o have w: "1 \<le> width (rotate_if_landscape img)" and h: "1 \<le> height (rotate_if_landscape img)"
    by (simp_all add: rotate_if_landscape_size)
  from pos have "1 \<le> nw \<or> 1 \<le> nh" by simp
  note c = new_size_cell_pos [OF ns w h this]
  note l = quarter_size_for_less [OF bs sz, of k]
  from c have c0: "0 \<le> fst ?q" "0 \<le> snd ?q" by simp_all
  note b = new_size_in_cell [OF ns w h c0(1) l(1) c0(2) l(2)]
  show thesis
    using pos(1) b(2) pos(2) b(4) dims by (rule that)
qed

text \<open>
  C3, as the code has it. When the Compositor returns a page (border not negative, page
  dimensions below \<open>2 ^ 51\<close>), exactly four boxes were pasted, and they are pairwise
  disjoint. The resized image inside each bordered sub-image lies within the cell of its
  index, which is the quarter size of that index placed at its paste position, and every
  cell lies within the page. Nothing is said about the border padding: it is what can
  leave the page.
\<close>

theorem pasted_boxes_disjoint_images_in_cells:
  assumes run: "fst (resize_and_merge fs image_paths final_size border_size border_color) = Inr page"
    and bs: "0 \<le> border_size"
    and sz: "fst final_size < 2 ^ 51" "snd final_size < 2 ^ 51"
  shows "\<exists>b0 b1 b2 b3.
    pasted page = [b0, b1, b2, b3] \<and>
    boxes_disjoint b0 b1 \<and> boxes_disjoint b0 b2 \<and> boxes_disjoint b0 b3 \<and>
    boxes_disjoint b1 b2 \<and> boxes_disjoint b1 b3 \<and> boxes_disjoint b2 b3 \<and>
    box_within (inner_box (border_for border_size 0) b0) (cell_box final_size border_size 0) \<and>
    box_within (inner_box (border_for border_size 1) b1) (cell_box final_size border_size 1) \<and>
    box_within (inner_box (border_for border_size 2) b2) (cell_box final_size border_size 2) \<and>
    box_within (inner_box (border_for border_size 3) b3) (cell_box final_size border_size 3) \<and>
    box_within (cell_box final_size border_size 0) (page_box page) \<and>
    box_within (cell_box final_size border_size 1) (page_box page) \<and>
    box_within (cell_box final_size border_size 2) (page_box page) \<and>
    box_within (cell_box final_size border_size 3) (page_box page)"
proof -
  from run obtain images where
    len: "4 \<le> length images"
    and each: "\<forall>k<length images.
        process_image fs final_size border_size border_color k (image_paths ! k)
          = (Inr (images ! k), fs)"
    and page: "page = \<lparr>width = fst final_size, height = snd final_size,
       pasted = map (\<lambda>k. (fst (paste_position final_size border_size k),
                           snd (paste_position final_size border_size k),
                           fst (paste_position final_size border_size k) + width (images ! k),
                           snd (paste_position final_size border_size k) + height (images ! k)))
                  [0, 1, 2, 3]\<rparr>"
    by (rule resize_and_merge_Inr)
  define W where "W = fst final_size"
  define H where "H = snd final_size"
  define a where "a = (W - border_size) div 2"
  define b where "b = H div 2"
  define c where "c = (W - 2 * border_size) div 2"
  define d where "d = (H - border_size) div 2"
  have q: "quarter_size_for final_size border_size 0 = (a, b)"
    "quarter_size_for final_size border_size 1 = (c, d)"
    "quarter_size_for final_size border_size 2 = (a, b)"
    "quarter_size_for final_size border_size 3 = (c, d)"
    by (simp_all add: quarter_size_for_def quarter_size_single_border_def
        quarter_size_double_border_def a_def b_def c_def d_def W_def H_def)
  note q = q q [unfolded One_nat_def]
  have pp: "paste_position final_size border_size 0 = (0, 0)"
    "paste_position final_size border_size 1 = (a + border_size, 0)"
    "paste_position final_size border_size 2 = (0, b)"
    "paste_position final_size border_size 3 = (a + border_size, d + border_size)"
    by (simp_all add: paste_position_def quarter_size_single_border_def
        quarter_size_double_border_def a_def b_def c_def d_def W_def H_def Let_def)
  note pp = pp pp [unfolded One_nat_def]
  have div: "2 * a \<le> W - border_size" "2 * b \<le> H" "2 * c \<le> W - 2 * border_size"
    "2 * d \<le> H - border_size"
    by (simp_all add: a_def b_def c_def d_def)
  from len have lt: "0 < length images" "1 < length images" "2 < length images"
    "3 < length images"
    by linarith+
  from each lt have p0:
    "process_image fs final_size border_size border_color 0 (image_paths ! 0) = (Inr (images ! 0), fs)"
    and p1:
    "process_image fs final_size border_size border_color 1 (image_paths ! 1) = (Inr (images ! 1), fs)"
    and p2:
    "process_image fs final_size border_size border_color 2 (image_paths ! 2) = (Inr (images ! 2), fs)"
    and p3:
    "process_image fs final_size border_size border_color 3 (image_paths ! 3) = (Inr (images ! 3), fs)"
    by blast+
  from p0 bs sz obtain nw0 nh0 where r0: "1 \<le> nw0"
    "nw0 \<le> fst (quarter_size_for final_size border_size 0)"
    "1 \<le> nh0" "nh0 \<le> snd (quarter_size_for final_size border_size 0)"
    "width (images ! 0) = nw0 + border_size"
    "height (images ! 0) = nh0 + (if odd (0::nat) then border_size else 0)"
    by (rule bordered_image_in_cell)
  from r0 have i0: "1 \<le> nw0" "nw0 \<le> a" "1 \<le> nh0" "nh0 \<le> b"
    "width (images ! 0) = nw0 + border_size" "height (images ! 0) = nh0"
    by (simp_all add: q)
  from p1 bs sz obtain nw1 nh1 where r1: "1 \<le> nw1"
    "nw1 \<le> fst (quarter_size_for final_size border_size 1)"
    "1 \<le> nh1" "nh1 \<le> snd (quarter_size_for final_size border_size 1)"
    "width (images ! 1) = nw1 + border_size"
    "height (images ! 1) = nh1 + (if odd (1::nat) then border_size else 0)"
    by (rule bordered_image_in_cell)
  from r1 have i1: "1 \<le> nw1" "nw1 \<le> c" "1 \<le> nh1" "nh1 \<le> d"
    "width (images ! 1) = nw1 + border_size" "height (images ! 1) = nh1 + border_size"
    by (simp_all add: q)
  note i1 = i1 i1 [unfolded One_nat_def]
  from p2 bs sz obtain nw2 nh2 where r2: "1 \<le> nw2"
    "nw2 \<le> fst (quarter_size_for final_size border_size 2)"
    "1 \<le> nh2" "nh2 \<le> snd (quarter_size_for final_size border_size 2)"
    "width (images ! 2) = nw2 + border_size"
    "height (images ! 2) = nh2 + (if odd (2::nat) then border_size else 0)"
    by (rule bordered_image_in_cell)
  from r2 have i2: "1 \<le> nw2" "nw2 \<le> a" "1 \<le> nh2" "nh2 \<le> b"
    "width (images ! 2) = nw2 + border_size" "height (images ! 2) = nh2"
    by (simp_all add: q)
  from p3 bs sz obtain nw3 nh3 where r3: "1 \<le> nw3"
    "nw3 \<le> fst (quarter_size_for final_size border_size 3)"
    "1 \<le> nh3" "nh3 \<le> snd (quarter_size_for final_size border_size 3)"
    "width (images ! 3) = nw3 + border_size"
    "height (images ! 3) = nh3 + (if odd (3::nat) then border_size else 0)"
    by (rule bordered_image_in_cell)
  from r3 have i3: "1 \<le> nw3" "nw3 \<le> c" "1 \<le> nh3" "nh3 \<le> d"
    "width (images ! 3) = nw3 + border_size" "height (images ! 3) = nh3 + border_size"
    by (simp_all add: q)
  define b0 where "b0 = (0::int, 0::int, nw0 + border_size, nh0)"
  define b1 where "b1 = (a + border_size, 0::int, a + border_size + (nw1 + border_size), nh1 + border_size)"
  define b2 where "b2 = (0::int, b, nw2 + border_size, b + nh2)"
  define b3 where "b3 = (a + border_size, d + border_size,
     a + border_size + (nw3 + border_size), d + border_size + (nh3 + border_size))"
  have pasted: "pasted page = [b0, b1, b2, b3]"
    by (simp add: page pp i0 i1 i2 i3 b0_def b1_def b2_def b3_def)
  have dis: "boxes_disjoint b0 b1" "boxes_disjoint b0 b2" "boxes_disjoint b0 b3"
    "boxes_disjoint b1 b2" "boxes_disjoint b1 b3" "boxes_disjoint b2 b3"
    using i0 i1 i2 i3 by (simp_all add: boxes_disjoint_def b0_def b1_def b2_def b3_def)
  have cells: "cell_box final_size border_size 0 = (0, 0, a, b)"
    "cell_box final_size border_size 1 = (a + border_size, 0, a + border_size + c, d)"
    "cell_box final_size border_size 2 = (0, b, a, b + b)"
    "cell_box final_size border_size 3 = (a + border_size, d + border_size,
       a + border_size + c, d + border_size + d)"
    by (simp_all add: cell_box_def pp q)
  note cells = cells cells [unfolded One_nat_def]
  have borders: "border_for border_size 0 = (0, 0, border_size, 0)"
    "border_for border_size 1 = (0, 0, border_size, border_size)"
    "border_for border_size 2 = (0, 0, border_size, 0)"
    "border_for border_size 3 = (0, 0, border_size, border_size)"
    by (simp_all add: border_for_def)
  note borders = borders borders [unfolded One_nat_def]
  have inner: "box_within (inner_box (border_for border_size 0) b0) (cell_box final_size border_size 0)"
    "box_within (inner_box (border_for border_size 1) b1) (cell_box final_size border_size 1)"
    "box_within (inner_box (border_for border_size 2) b2) (cell_box final_size border_size 2)"
    "box_within (inner_box (border_for border_size 3) b3) (cell_box final_size border_size 3)"
    using i0 i1 i2 i3
    by (simp_all add: cells borders inner_box_def box_within_def b0_def b1_def b2_def b3_def)
  have pb: "page_box page = (0, 0, W, H)"
    by (simp add: page_box_def page W_def H_def)
  have abcd: "1 \<le> a" "1 \<le> b" "1 \<le> c" "1 \<le> d"
    using i0 i1 by simp_all
  have inpage: "box_within (cell_box final_size border_size 0) (page_box page)"
    "box_within (cell_box final_size border_size 1) (page_box page)"
    "box_within (cell_box final_size border_size 2) (page_box page)"
    "box_within (cell_box final_size border_size 3) (page_box page)"
    using abcd div bs by (simp_all add: cells pb box_within_def)
  from pasted dis inner inpage show ?thesis by blast
qed

lemma four_run:
  "fst (resize_and_merge fs_four
      [(''images'', ''a.jpg''), (''images'', ''b.jpg''), (''images'', ''c.jpg''), (''images'', ''d.jpg'')]
      (1100, 1700) 59 ''white'')
     = Inr \<lparr>width = 1100, height = 1700,
         pasted = [(0, 0, 579, 850), (579, 0, 1129, 879), (0, 850, 579, 1700), (579, 879, 1129, 1758)]\<rparr>"
  by code_simp

text \<open>
  Four images of exactly the sizes of their cells, on the default page.
\<close>

theorem pasted_boxes_disjoint_images_in_cells_witness:
  "fst (resize_and_merge fs_four
      [(''images'', ''a.jpg''), (''images'', ''b.jpg''), (''images'', ''c.jpg''), (''images'', ''d.jpg'')]
      (1100, 1700) 59 ''white'')
     = Inr \<lparr>width = 1100, height = 1700,
         pasted = [(0, 0, 579, 850), (579, 0, 1129, 879), (0, 850, 579, 1700), (579, 879, 1129, 1758)]\<rparr>
   \<and> boxes_disjoint (579, 0, 1129, 879) (579, 879, 1129, 1758)
   \<and> box_within (inner_box (border_for 59 1) (579, 0, 1129, 879)) (cell_box (1100, 1700) 59 1)"
  using pasted_boxes_disjoint_images_in_cells [OF four_run] four_run by simp

text \<open>
  C3, as stated, fails on the same input: the bordered sub-images at indices 1 and 3 are
  550 x 879 and are pasted at x = 579, so they reach x = 1129 on a page 1100 wide, and the
  one at index 3 reaches y = 1758 on a page 1700 high. No region of the page contains
  them.
\<close>

theorem bordered_image_exceeds_page:
  "fst (resize_and_merge fs_four
      [(''images'', ''a.jpg''), (''images'', ''b.jpg''), (''images'', ''c.jpg''), (''images'', ''d.jpg'')]
      (1100, 1700) 59 ''white'')
     = Inr \<lparr>width = 1100, height = 1700,
         pasted = [(0, 0, 579, 850), (579, 0, 1129, 879), (0, 850, 579, 1700), (579, 879, 1129, 1758)]\<rparr>
   \<and> \<not> box_within (579, 0, 1129, 879) (0, 0, 1100, 1700)
   \<and> \<not> box_within (579, 879, 1129, 1758) (0, 0, 1100, 1700)"
  using four_run by (simp add: box_within_def)

section \<open>Properties of the Batcher\<close>

declare py_str.simps [simp del] pad_slice.simps [simp del] batch_loop.simps [simp del]

lemma py_str_nonempty: "py_str n \<noteq> []"
  by (subst py_str.simps) simp

lemma py_str_inj: "py_str a = py_str b \<Longrightarrow> a = b"
proof (induction a arbitrary: b rule: py_str.induct)
  case (1 a)
  show ?case
  proof (cases "a < 10")
    case a: True
    show ?thesis
    proof (cases "b < 10")
      case True
      from "1.prems" have "[char_of (48 + a)] = [char_of (48 + b)]"
        using a True by (subst (asm) py_str.simps, subst (asm) (2) py_str.simps) simp
      with a True show ?thesis by simp
    next
      case False
      from "1.prems" have "[char_of (48 + a)] = py_str (b div 10) @ [char_of (48 + b mod 10)]"
        using a False by (subst (asm) py_str.simps, subst (asm) (2) py_str.simps) simp
      with py_str_nonempty [of "b div 10"] show ?thesis by simp
    qed
  next
    case a: False
    show ?thesis
    proof (cases "b < 10")
      case True
      from "1.prems" have "py_str (a div 10) @ [char_of (48 + a mod 10)] = [char_of (48 + b)]"
        using a True by (subst (asm) py_str.simps, subst (asm) (2) py_str.simps) simp
      with py_str_nonempty [of "a div 10"] show ?thesis by simp
    next
      case False
      from "1.prems" have "py_str (a div 10) @ [char_of (48 + a mod 10)]
          = py_str (b div 10) @ [char_of (48 + b mod 10)]"
        using a False by (subst (asm) py_str.simps, subst (asm) (2) py_str.simps) simp
      then have s: "py_str (a div 10) = py_str (b div 10)"
        and c: "char_of (48 + a mod 10) = char_of (48 + b mod 10)"
        by simp_all
      from "1.IH" [OF a s] have d: "a div 10 = b div 10" .
      have "(48 + a mod 10) mod 256 = 48 + a mod 10" "(48 + b mod 10) mod 256 = 48 + b mod 10"
        by simp_all
      with c have m: "a mod 10 = b mod 10" by simp
      from d m show ?thesis by (metis div_mult_mod_eq)
    qed
  qed
qed

lemma merged_name_inj: "merged_name j = merged_name k \<longleftrightarrow> j = k"
  by (auto simp add: merged_name_def dest: py_str_inj)

lemma merged_name_not_white: "merged_name k \<noteq> ''white_temp.jpg''"
  by (simp add: merged_name_def)

lemma image_save_Inr:
  assumes "image_save fs img p = (Inr u, fs')"
  obtains l where "fs (fst p) = Some l"
    and "fs' = fs(fst p \<mapsto> AList.update (snd p) (ImageFile img) l)"
  using assms
  by (auto simp add: image_save_def split: option.splits if_splits)

lemma pad_slice_Inr:
  assumes "pad_slice fs ps out final_size border_color = (Inr ps', fs')"
    and "fs out = Some l"
  shows "4 \<le> length ps' \<and>
    (if length ps < 4
     then \<exists>white. fs' = fs(out \<mapsto> AList.update ''white_temp.jpg'' (ImageFile white) l)
     else fs' = fs)"
  using assms
proof (induction fs ps out final_size border_color arbitrary: l rule: pad_slice.induct)
  case (1 fs ps out final_size border_color)
  show ?case
  proof (cases "length ps < 4")
    case False
    with "1.prems" show ?thesis by (simp add: pad_slice.simps [of fs ps])
  next
    case True
    note unfold = "1.prems"(1) [unfolded pad_slice.simps [of fs ps]]
    from unfold True obtain white where nw: "image_new final_size border_color = Inr white"
      by (cases "image_new final_size border_color") simp_all
    obtain r fs1 where sv: "image_save fs white (white_image_path out) = (r, fs1)"
      by (cases "image_save fs white (white_image_path out)")
    with unfold True nw obtain u where r: "r = Inr u"
      by (cases r) simp_all
    from sv r "1.prems"(2) have fs1: "fs1 = fs(out \<mapsto> AList.update ''white_temp.jpg'' (ImageFile white) l)"
      by (auto elim!: image_save_Inr simp add: white_image_path_def os_path_join_def)
    from unfold True nw sv r have rec:
      "pad_slice fs1 (ps @ [white_image_path out]) out final_size border_color = (Inr ps', fs')"
      by simp
    have l1: "fs1 out = Some (AList.update ''white_temp.jpg'' (ImageFile white) l)"
      by (simp add: fs1)
    from "1.IH" [OF True nw sv [symmetric] r rec l1]
    have ih: "4 \<le> length ps' \<and>
      (if length (ps @ [white_image_path out]) < 4
       then \<exists>white'. fs' = fs1(out \<mapsto> AList.update ''white_temp.jpg'' (ImageFile white')
              (AList.update ''white_temp.jpg'' (ImageFile white) l))
       else fs' = fs1)" .
    then have "\<exists>w. fs' = fs(out \<mapsto> AList.update ''white_temp.jpg'' (ImageFile w) l)"
      by (auto simp add: fs1 split: if_splits)
    with ih True show ?thesis by simp
  qed
qed

lemma resize_and_merge_page_size:
  assumes "resize_and_merge fs ps final_size border_size border_color = (Inr page, fs')"
  shows "width page = fst final_size" and "height page = snd final_size" and "fs' = fs"
proof -
  from assms have f: "fst (resize_and_merge fs ps final_size border_size border_color) = Inr page"
    by simp
  from f show "width page = fst final_size" "height page = snd final_size"
    by (auto elim!: resize_and_merge_Inr)
  from assms resize_and_merge_fs [of fs ps final_size border_size border_color]
  show "fs' = fs" by simp
qed

lemma group_index_set:
  assumes "i < n" and "i mod 4 = 0"
  shows "{k. i \<le> 4 * k \<and> 4 * k < n} = insert (i div 4) {k. i + 4 \<le> 4 * k \<and> 4 * k < (n::nat)}"
  using assms by auto

lemma filler_needed_iff:
  assumes "i < n" and "i mod 4 = 0"
  shows "n mod 4 \<noteq> 0 \<longleftrightarrow> n - i < 4 \<or> (i + 4 < n \<and> (n::nat) mod 4 \<noteq> 0)"
  using assms by presburger

lemma batch_loop_Inr:
  assumes "batch_loop fs paths i out final_size border_size border_color = (Inr (), fs')"
    and "fs out = Some l" and "i mod 4 = 0"
  shows "\<exists>l'. fs' out = Some l' \<and> (\<forall>d. d \<noteq> out \<longrightarrow> fs' d = fs d) \<and>
    fst ` set l' = fst ` set l \<union> merged_name ` {k. i \<le> 4 * k \<and> 4 * k < length paths}
      \<union> (if i < length paths \<and> length paths mod 4 \<noteq> 0 then {''white_temp.jpg''} else {}) \<and>
    (\<forall>k. i \<le> 4 * k \<and> 4 * k < length paths \<longrightarrow>
       (\<exists>page. map_of l' (merged_name k) = Some (ImageFile page) \<and>
          width page = fst final_size \<and> height page = snd final_size)) \<and>
    (\<forall>n. n \<noteq> ''white_temp.jpg'' \<and> n \<notin> merged_name ` {k. i \<le> 4 * k \<and> 4 * k < length paths}
       \<longrightarrow> map_of l' n = map_of l n)"
  using assms
proof (induction fs paths i out final_size border_size border_color arbitrary: l
    rule: batch_loop.induct)
  case (1 fs paths i out final_size border_size border_color)
  let ?N = "length paths"
  let ?S = "\<lambda>j. {k. j \<le> 4 * k \<and> 4 * k < ?N}"
  note unfold = "1.prems"(1)
    [unfolded batch_loop.simps [of fs paths i out final_size border_size border_color]]
  show ?case
  proof (cases "i < ?N")
    case False
    with unfold have "fs' = fs" by simp
    with "1.prems"(2) False show ?thesis by auto
  next
    case True
    let ?slice = "take 4 (drop i paths)"
    obtain r1 fs1 where pad: "pad_slice fs ?slice out final_size border_color = (r1, fs1)"
      by (cases "pad_slice fs ?slice out final_size border_color")
    with unfold True obtain ps where r1: "r1 = Inr ps"
      by (cases r1) simp_all
    note pad = pad [unfolded r1]
    obtain r2 fs2 where rm: "resize_and_merge fs1 ps final_size border_size border_color = (r2, fs2)"
      by (cases "resize_and_merge fs1 ps final_size border_size border_color")
    with unfold True pad obtain page where r2: "r2 = Inr page"
      by (cases r2) simp_all
    note rm = rm [unfolded r2]
    obtain r3 fs3 where sv: "image_save fs2 page (merged_image_path out i) = (r3, fs3)"
      by (cases "image_save fs2 page (merged_image_path out i)")
    with unfold True pad rm obtain u where r3: "r3 = Inr u"
      by (cases r3) simp_all
    note sv = sv [unfolded r3]
    note p = pad_slice_Inr [OF pad "1.prems"(2)]
    from p have len: "\<not> length ps < 4" by simp
    from unfold True pad rm sv len have rec:
      "batch_loop fs3 paths (i + 4) out final_size border_size border_color = (Inr (), fs')"
      by simp
    note pg = resize_and_merge_page_size [OF rm]
    have slice_len: "length ?slice < 4 \<longleftrightarrow> ?N - i < 4" by auto
    have "\<exists>l1. fs1 out = Some l1 \<and> (\<forall>d. d \<noteq> out \<longrightarrow> fs1 d = fs d) \<and>
        fst ` set l1 = fst ` set l \<union> (if ?N - i < 4 then {''white_temp.jpg''} else {}) \<and>
        (\<forall>n. n \<noteq> ''white_temp.jpg'' \<longrightarrow> map_of l1 n = map_of l n)"
    proof (cases "?N - i < 4")
      case short: True
      with p slice_len obtain white where
        "fs1 = fs(out \<mapsto> AList.update ''white_temp.jpg'' (ImageFile white) l)"
        by auto
      with short show ?thesis
        by (intro exI [of _ "AList.update ''white_temp.jpg'' (ImageFile white) l"])
          (simp add: dom_update update_conv')
    next
      case False
      with p slice_len have "fs1 = fs" by simp
      with False "1.prems"(2) show ?thesis
        by (intro exI [of _ l]) simp
    qed
    then obtain l1 where fs1_out: "fs1 out = Some l1"
      and fs1_other: "\<And>d. d \<noteq> out \<Longrightarrow> fs1 d = fs d"
      and l1_names: "fst ` set l1 = fst ` set l \<union> (if ?N - i < 4 then {''white_temp.jpg''} else {})"
      and l1_map: "\<And>n. n \<noteq> ''white_temp.jpg'' \<Longrightarrow> map_of l1 n = map_of l n"
      by blast
    define l3 where "l3 = AList.update (merged_name (i div 4)) (ImageFile page) l1"
    from sv pg(3) fs1_out have fs3: "fs3 = fs1(out \<mapsto> l3)"
      by (auto elim!: image_save_Inr simp add: merged_image_path_def os_path_join_def
          merged_name_def l3_def)
    have fs3_out: "fs3 out = Some l3" by (simp add: fs3)
    from "1.prems"(3) have i4: "(i + 4) mod 4 = 0" by presburger
    from "1.IH"(2) [OF True pad [symmetric] refl rm [symmetric] refl sv [symmetric] refl len rec fs3_out i4]
    obtain l' where ih: "fs' out = Some l' \<and> (\<forall>d. d \<noteq> out \<longrightarrow> fs' d = fs3 d) \<and>
        fst ` set l' = fst ` set l3 \<union> merged_name ` ?S (i + 4)
          \<union> (if i + 4 < ?N \<and> ?N mod 4 \<noteq> 0 then {''white_temp.jpg''} else {}) \<and>
        (\<forall>k. i + 4 \<le> 4 * k \<and> 4 * k < ?N \<longrightarrow>
           (\<exists>page. map_of l' (merged_name k) = Some (ImageFile page) \<and>
              width page = fst final_size \<and> height page = snd final_size)) \<and>
        (\<forall>n. n \<noteq> ''white_temp.jpg'' \<and> n \<notin> merged_name ` ?S (i + 4)
           \<longrightarrow> map_of l' n = map_of l3 n)" ..
    note out' = ih [THEN conjunct1]
      and other' = ih [THEN conjunct2, THEN conjunct1]
      and names' = ih [THEN conjunct2, THEN conjunct2, THEN conjunct1]
      and pages' = ih [THEN conjunct2, THEN conjunct2, THEN conjunct2, THEN conjunct1]
      and same' = ih [THEN conjunct2, THEN conjunct2, THEN conjunct2, THEN conjunct2]
    note S = group_index_set [OF True "1.prems"(3)]
    note F = filler_needed_iff [OF True "1.prems"(3)]
    have notin: "merged_name (i div 4) \<notin> merged_name ` ?S (i + 4)"
    proof
      assume "merged_name (i div 4) \<in> merged_name ` ?S (i + 4)"
      then obtain k where "i + 4 \<le> 4 * k" "merged_name (i div 4) = merged_name k" by auto
      then show False by (simp add: merged_name_inj)
    qed
    have c1: "\<forall>d. d \<noteq> out \<longrightarrow> fs' d = fs d"
      using other' fs1_other by (simp add: fs3)
    have c2: "fst ` set l' = fst ` set l \<union> merged_name ` ?S i
        \<union> (if i < ?N \<and> ?N mod 4 \<noteq> 0 then {''white_temp.jpg''} else {})"
    proof -
      have "fst ` set l3 = insert (merged_name (i div 4)) (fst ` set l1)"
        by (simp add: l3_def dom_update)
      with names' l1_names S F True show ?thesis by auto
    qed
    have c3: "\<forall>k. i \<le> 4 * k \<and> 4 * k < ?N \<longrightarrow>
         (\<exists>page. map_of l' (merged_name k) = Some (ImageFile page) \<and>
            width page = fst final_size \<and> height page = snd final_size)"
    proof (intro allI impI)
      fix k assume k: "i \<le> 4 * k \<and> 4 * k < ?N"
      then have "k \<in> ?S i" by simp
      then consider "k = i div 4" | "i + 4 \<le> 4 * k \<and> 4 * k < ?N"
        unfolding S by auto
      then show "\<exists>page. map_of l' (merged_name k) = Some (ImageFile page) \<and>
            width page = fst final_size \<and> height page = snd final_size"
      proof cases
        case 1
        have "map_of l' (merged_name (i div 4)) = map_of l3 (merged_name (i div 4))"
          using same' notin merged_name_not_white by blast
        also have "\<dots> = Some (ImageFile page)"
          by (simp add: l3_def update_conv')
        finally show ?thesis using pg 1 by blast
      next
        case 2
        with pages' show ?thesis by blast
      qed
    qed
    have c4: "\<forall>n. n \<noteq> ''white_temp.jpg'' \<and> n \<notin> merged_name ` ?S i
         \<longrightarrow> map_of l' n = map_of l n"
    proof (intro allI impI)
      fix n assume n: "n \<noteq> ''white_temp.jpg'' \<and> n \<notin> merged_name ` ?S i"
      then have n1: "n \<noteq> merged_name (i div 4)" and n2: "n \<notin> merged_name ` ?S (i + 4)"
        unfolding S by auto
      from n n2 same' have "map_of l' n = map_of l3 n" by blast
      also from n1 have "\<dots> = map_of l1 n" by (simp add: l3_def update_conv')
      also from n have "\<dots> = map_of l n" by (simp add: l1_map)
      finally show "map_of l' n = map_of l n" .
    qed
    from out' c1 c2 c3 c4 show ?thesis by blast
  qed
qed

lemma makedirs_eq:
  "makedirs fs out = (Inr (), fs(out \<mapsto> (case fs out of None \<Rightarrow> [] | Some entries \<Rightarrow> entries)))"
  by (auto simp add: makedirs_def split: option.splits)

lemma group_indices_lessThan: "{k. 0 \<le> 4 * k \<and> 4 * k < (n::nat)} = {..<(n + 3) div 4}"
  by auto

lemma merge_images_in_folder_Inr:
  assumes "fst (merge_images_in_folder fs input_folder out final_size border_size border_color) = Inr ()"
  shows "\<exists>l'.
    snd (merge_images_in_folder fs input_folder out final_size border_size border_color) out = Some l' \<and>
    (\<forall>d. d \<noteq> out \<longrightarrow>
       snd (merge_images_in_folder fs input_folder out final_size border_size border_color) d = fs d) \<and>
    fst ` set l' = fst ` set (case fs out of None \<Rightarrow> [] | Some entries \<Rightarrow> entries)
      \<union> merged_name ` {..<(length (glob_star fs input_folder) + 3) div 4}
      \<union> (if length (glob_star fs input_folder) mod 4 \<noteq> 0 then {''white_temp.jpg''} else {}) \<and>
    (\<forall>k<(length (glob_star fs input_folder) + 3) div 4.
       \<exists>page. map_of l' (merged_name k) = Some (ImageFile page) \<and>
          width page = fst final_size \<and> height page = snd final_size) \<and>
    (\<forall>n. n \<noteq> ''white_temp.jpg'' \<and>
         n \<notin> merged_name ` {..<(length (glob_star fs input_folder) + 3) div 4}
       \<longrightarrow> map_of l' n = map_of (case fs out of None \<Rightarrow> [] | Some entries \<Rightarrow> entries) n)"
proof -
  let ?paths = "glob_star fs input_folder"
  let ?l0 = "case fs out of None \<Rightarrow> [] | Some entries \<Rightarrow> entries"
  let ?fs0 = "fs(out \<mapsto> ?l0)"
  let ?run = "merge_images_in_folder fs input_folder out final_size border_size border_color"
  have run: "?run = batch_loop ?fs0 ?paths 0 out final_size border_size border_color"
    by (simp add: merge_images_in_folder_def makedirs_eq)
  obtain fs' where fs': "batch_loop ?fs0 ?paths 0 out final_size border_size border_color = (Inr (), fs')"
    using assms unfolding run
    by (cases "batch_loop ?fs0 ?paths 0 out final_size border_size border_color") simp
  have l0: "?fs0 out = Some ?l0" by simp
  have z: "(0::nat) mod 4 = 0" by simp
  note b = batch_loop_Inr [OF fs' l0 z, unfolded group_indices_lessThan]
  have other: "\<And>d. d \<noteq> out \<Longrightarrow> ?fs0 d = fs d" by simp
  have N: "(0 < length ?paths \<and> length ?paths mod 4 \<noteq> 0) \<longleftrightarrow> length ?paths mod 4 \<noteq> 0"
    by auto
  have le: "\<And>k. (0 \<le> 4 * k \<and> 4 * k < length ?paths) \<longleftrightarrow> k < (length ?paths + 3) div 4"
    by auto
  from b show ?thesis
    unfolding run fs' snd_conv N le using other by simp
qed

text \<open>
  C9. When the input folder yields no path (it is empty), the run returns without error,
  and the filesystem afterwards differs from the one before only in that the output
  folder exists: with the listing it had, or empty when it was created. No file is
  written.
\<close>

theorem empty_input_creates_folder_only:
  assumes "glob_star fs input_folder = []"
  shows "merge_images_in_folder fs input_folder output_folder final_size border_size border_color
     = (Inr (), fs(output_folder \<mapsto>
          (case fs output_folder of None \<Rightarrow> [] | Some entries \<Rightarrow> entries)))"
  using assms
  by (auto simp add: merge_images_in_folder_def makedirs_def batch_loop.simps split: option.splits)

theorem empty_input_creates_folder_only_witness:
  "glob_star fs_empty ''images'' = [] \<and>
   merge_images_in_folder fs_empty ''images'' ''merged_images'' (1100, 1700) 59 ''white''
     = (Inr (), fs_empty(''merged_images'' \<mapsto> []))"
proof -
  have g: "glob_star fs_empty ''images'' = []"
    by (simp add: glob_star_def fs_empty_def)
  have n: "fs_empty ''merged_images'' = None"
    by (simp add: fs_empty_def)
  from empty_input_creates_folder_only [OF g, of "''merged_images''" "(1100, 1700)" 59 "''white''"] g n
  show ?thesis by simp
qed






lemma five_run:
  "fst (merge_images_in_folder fs_five ''images'' ''merged_images'' (1100, 1700) 59 ''white'') = Inr ()"
  by code_simp

lemma five_paths: "length (glob_star fs_five ''images'') = 5"
  by (simp add: glob_star_def fs_five_def hidden_def)

lemma merged_names: "merged_name 0 = ''merged_0.jpg''" "merged_name 1 = ''merged_1.jpg''"
  by code_simp+



text \<open>
  C4. A page returned by the Compositor has the width and height of \<open>final_size\<close>,
  whatever the images. When a run of the Batcher returns without error, each of the files
  \<open>merged_k.jpg\<close> for \<open>k\<close> below the number of groups holds an image of that size.
\<close>

theorem every_page_has_final_size:
  "(fst (resize_and_merge fs image_paths final_size border_size border_color) = Inr page \<longrightarrow>
      width page = fst final_size \<and> height page = snd final_size) \<and>
   (fst (merge_images_in_folder fs input_folder output_folder final_size border_size border_color)
      = Inr () \<longrightarrow>
    (\<forall>k<(length (glob_star fs input_folder) + 3) div 4.
       \<exists>l' merged_image.
         snd (merge_images_in_folder fs input_folder output_folder final_size border_size border_color)
           output_folder = Some l' \<and>
         map_of l' (merged_name k) = Some (ImageFile merged_image) \<and>
         width merged_image = fst final_size \<and> height merged_image = snd final_size))"
proof (intro conjI impI)
  assume "fst (resize_and_merge fs image_paths final_size border_size border_color) = Inr page"
  then show "width page = fst final_size" "height page = snd final_size"
    by (auto elim!: resize_and_merge_Inr)
next
  assume "fst (merge_images_in_folder fs input_folder output_folder final_size border_size border_color)
      = Inr ()"
  from merge_images_in_folder_Inr [OF this] obtain l' where
    r: "snd (merge_images_in_folder fs input_folder output_folder final_size border_size border_color) output_folder = Some l' \<and>
    (\<forall>d. d \<noteq> output_folder \<longrightarrow>
       snd (merge_images_in_folder fs input_folder output_folder final_size border_size border_color) d = fs d) \<and>
    fst ` set l' = fst ` set (case fs output_folder of None \<Rightarrow> [] | Some entries \<Rightarrow> entries)
      \<union> merged_name ` {..<(length (glob_star fs input_folder) + 3) div 4}
      \<union> (if length (glob_star fs input_folder) mod 4 \<noteq> 0 then {''white_temp.jpg''} else {}) \<and>
    (\<forall>k<(length (glob_star fs input_folder) + 3) div 4.
       \<exists>page. map_of l' (merged_name k) = Some (ImageFile page) \<and>
          width page = fst final_size \<and> height page = snd final_size) \<and>
    (\<forall>n. n \<noteq> ''white_temp.jpg'' \<and>
         n \<notin> merged_name ` {..<(length (glob_star fs input_folder) + 3) div 4}
       \<longrightarrow> map_of l' n = map_of (case fs output_folder of None \<Rightarrow> [] | Some entries \<Rightarrow> entries) n)" ..
  note r1 = r [THEN conjunct1]
    and r4 = r [THEN conjunct2, THEN conjunct2, THEN conjunct2, THEN conjunct1]
  from r1 r4 show "\<forall>k<(length (glob_star fs input_folder) + 3) div 4.
       \<exists>l' merged_image.
         snd (merge_images_in_folder fs input_folder output_folder final_size border_size border_color)
           output_folder = Some l' \<and>
         map_of l' (merged_name k) = Some (ImageFile merged_image) \<and>
         width merged_image = fst final_size \<and> height merged_image = snd final_size"
    by blast
qed

text \<open>
  The page of four images, and the second page of the run on five images.
\<close>

theorem every_page_has_final_size_witness:
  "fst (resize_and_merge fs_four
      [(''images'', ''a.jpg''), (''images'', ''b.jpg''), (''images'', ''c.jpg''), (''images'', ''d.jpg'')]
      (1100, 1700) 59 ''white'')
     = Inr \<lparr>width = 1100, height = 1700,
         pasted = [(0, 0, 579, 850), (579, 0, 1129, 879), (0, 850, 579, 1700), (579, 879, 1129, 1758)]\<rparr> \<and>
   fst (merge_images_in_folder fs_five ''images'' ''merged_images'' (1100, 1700) 59 ''white'') = Inr () \<and>
   (\<exists>l' merged_image.
      snd (merge_images_in_folder fs_five ''images'' ''merged_images'' (1100, 1700) 59 ''white'')
        ''merged_images'' = Some l' \<and>
      map_of l' ''merged_1.jpg'' = Some (ImageFile merged_image) \<and>
      width merged_image = 1100 \<and> height merged_image = 1700)"
proof -
  note t = every_page_has_final_size [of fs_five "[]" "(1100, 1700)" 59 "''white''" undefined
      "''images''" "''merged_images''"]
  from t five_run have "\<forall>k<(length (glob_star fs_five ''images'') + 3) div 4.
       \<exists>l' merged_image.
         snd (merge_images_in_folder fs_five ''images'' ''merged_images'' (1100, 1700) 59 ''white'')
           ''merged_images'' = Some l' \<and>
         map_of l' (merged_name k) = Some (ImageFile merged_image) \<and>
         width merged_image = fst (1100::int, 1700::int) \<and> height merged_image = snd (1100::int, 1700::int)"
    by blast
  moreover have "1 < (length (glob_star fs_five ''images'') + 3) div 4"
    by (simp add: five_paths)
  ultimately have "\<exists>l' merged_image.
         snd (merge_images_in_folder fs_five ''images'' ''merged_images'' (1100, 1700) 59 ''white'')
           ''merged_images'' = Some l' \<and>
         map_of l' (merged_name 1) = Some (ImageFile merged_image) \<and>
         width merged_image = fst (1100::int, 1700::int) \<and> height merged_image = snd (1100::int, 1700::int)"
    by blast
  with four_run five_run show ?thesis
    by (simp add: merged_names [unfolded One_nat_def])
qed

text \<open>
  C1 fails on the code. With one image in the input folder and the defaults, the run
  returns without error and the output folder then lists \<open>white_temp.jpg\<close> beside
  \<open>merged_0.jpg\<close>: the loop \<^verbatim>\<open>while len(paths_slice) < 4\<close> has made the slice four
  long before \<^verbatim>\<open>if len(paths_slice) < 4: os.remove(white_image_path)\<close> is reached, so the
  filler is never removed.
\<close>

theorem filler_left_behind:
  "(case merge_images_in_folder fs_landscape ''images'' ''merged_images'' (1100, 1700) 59 ''white'' of
      (r, fs') \<Rightarrow> r = Inr () \<and>
        map fst (the (fs' ''merged_images'')) = [''white_temp.jpg'', ''merged_0.jpg''])"
  by code_simp

end
